theory Spec2Isabelle
  imports Main
begin

section \<open>Values delivered by the external API\<close>

text \<open>
  The service \<^verbatim>\<open>twitterService.ts\<close> reads the parsed JSON response through the
  TypeScript types \<^verbatim>\<open>Tweet\<close> and \<^verbatim>\<open>any\<close>. The model follows the declared types:
  an optional property of type string is a \<open>string option\<close>, where \<open>None\<close> stands for an
  absent property (\<^verbatim>\<open>undefined\<close>). JavaScript truthiness is written out: a string is
  truthy iff it is present and non-empty, a number iff it is present and not zero, an object
  or array iff it is present.

  Two properties are read in a way that tells JSON \<^verbatim>\<open>null\<close> from \<^verbatim>\<open>undefined\<close>:
  \<^verbatim>\<open>isReply\<close>, tested with \<^verbatim>\<open>!== undefined\<close>, and \<^verbatim>\<open>createdAt\<close>, passed to
  \<^verbatim>\<open>new Date\<close>. They are of type \<open>'a nullable option\<close>. The other properties are taken to
  be absent or of their declared type.
\<close>

datatype 'a nullable = IsNull | NotNull 'a

text \<open>The value of a property for \<^verbatim>\<open>||\<close>: \<^verbatim>\<open>null\<close> is falsy, as \<^verbatim>\<open>undefined\<close> is.\<close>

definition valueOf :: "'a nullable option \<Rightarrow> 'a option" where
  "valueOf v = (case v of None \<Rightarrow> None | Some IsNull \<Rightarrow> None | Some (NotNull x) \<Rightarrow> Some x)"

datatype js_error = TypeError

definition truthy :: "string option \<Rightarrow> bool" where
  "truthy v = (case v of None \<Rightarrow> False | Some s \<Rightarrow> s \<noteq> [])"

definition truthyNum :: "int option \<Rightarrow> bool" where
  "truthyNum v = (case v of None \<Rightarrow> False | Some n \<Rightarrow> n \<noteq> 0)"

text \<open>\<^verbatim>\<open>a || b\<close> on strings, on numbers and on objects.\<close>

definition orStr :: "string option \<Rightarrow> string option \<Rightarrow> string option" where
  "orStr a b = (if truthy a then a else b)"

definition orNum :: "int option \<Rightarrow> int option \<Rightarrow> int option" where
  "orNum a b = (if truthyNum a then a else b)"

definition orObj :: "'a option \<Rightarrow> 'a option \<Rightarrow> 'a option" where
  "orObj a b = (case a of Some x \<Rightarrow> Some x | None \<Rightarrow> b)"

text \<open>An opaque JSON object that the service only passes on (\<^verbatim>\<open>entities\<close>, \<^verbatim>\<open>card\<close>).\<close>

type_synonym payload = string

record author =
  userName :: string
  name :: string
  profilePicture :: string

record raw_user =
  user_userName :: "string option"
  user_username :: "string option"
  user_name :: "string option"
  user_profilePicture :: "string option"
  user_profile_image_url :: "string option"

record public_metrics =
  like_count :: "int option"
  retweet_count :: "int option"
  reply_count :: "int option"
  quote_count :: "int option"
  impression_count :: "int option"

text \<open>
  The scalar properties of a raw record that the service reads, under their source names
  with the prefix \<open>raw_\<close>.
\<close>

record raw_fields =
  raw_id :: "string option"
  raw_text :: "string option"
  raw_full_text :: "string option"
  raw_createdAt :: "string nullable option"
  raw_created_at :: "string option"
  raw_url :: "string option"
  raw_author :: "author option"
  raw_user :: "raw_user option"
  raw_likeCount :: "int option"
  raw_like_count :: "int option"
  raw_retweetCount :: "int option"
  raw_retweet_count :: "int option"
  raw_replyCount :: "int option"
  raw_reply_count :: "int option"
  raw_quoteCount :: "int option"
  raw_quote_count :: "int option"
  raw_viewCount :: "int option"
  raw_view_count :: "int option"
  raw_public_metrics :: "public_metrics option"
  raw_entities :: "payload option"
  raw_card :: "payload option"
  raw_Card :: "payload option"
  raw_in_reply_to_status_id :: "string option"
  raw_in_reply_to_tweet_id :: "string option"
  raw_inReplyToStatusId :: "string option"
  raw_inReplyToTweetId :: "string option"
  raw_reply_to_status_id :: "string option"
  raw_reply_to_tweet_id :: "string option"
  raw_inReplyToId :: "string option"
  raw_isReply :: "bool nullable option"
  raw_conversationId :: "string option"
  raw_inReplyToUserId :: "string option"
  raw_inReplyToUsername :: "string option"
  raw_displayTextRange :: "(int \<times> int) option"

text \<open>
  A raw record nests further raw records: the inline reply target (\<^verbatim>\<open>replied_to\<close> or
  \<^verbatim>\<open>repliedTo\<close>) and the entries of its reference list, each of which may embed a record.
\<close>

datatype raw =
  Raw (flat: raw_fields)
      (raw_replied_to: "raw option")
      (raw_repliedTo: "raw option")
      (raw_referenced_tweets: "rawref list option")
      (raw_referencedTweets: "rawref list option")
and rawref =
  Ref (ref_type: "string option")
      (ref_reference_type: "string option")
      (ref_id: "string option")
      (ref_tweet: "raw option")

section \<open>The canonical record (interface Tweet)\<close>

text \<open>The tag \<^verbatim>\<open>_source\<close>: \<^verbatim>\<open>'main' | 'includes' | 'replied_to'\<close>.\<close>

datatype source = SrcMain | SrcIncludes | SrcRepliedTo

record tweet_fields =
  tweetId :: "string option"
  tweetText :: "string option"
  createdAt :: "string nullable option"
  url :: "string option"
  author :: "author option"
  likeCount :: "int option"
  retweetCount :: "int option"
  replyCount :: "int option"
  quoteCount :: "int option"
  viewCount :: "int option"
  entities :: "payload option"
  tweetCard :: "payload option"
  inReplyToStatusId :: "string option"
  inReplyToTweetId :: "string option"
  referencedTweets :: "rawref list option"
  isReply :: "bool option"
  inReplyToId :: "string option"
  conversationId :: "string option"
  inReplyToUserId :: "string option"
  inReplyToUsername :: "string option"
  displayTextRange :: "(int \<times> int) option"
  source :: "source option"

datatype tweet =
  Tweet (props: tweet_fields)
        (repliedTo: "tweet option")
        (children: "tweet list option")

text \<open>The object literal \<^verbatim>\<open>{}\<close>: every property absent.\<close>

definition noFields :: tweet_fields where
  "noFields = \<lparr> tweetId = None, tweetText = None, createdAt = None, url = None,
     author = None, likeCount = None, retweetCount = None, replyCount = None,
     quoteCount = None, viewCount = None, entities = None, tweetCard = None,
     inReplyToStatusId = None, inReplyToTweetId = None, referencedTweets = None,
     isReply = None, inReplyToId = None, conversationId = None, inReplyToUserId = None,
     inReplyToUsername = None, displayTextRange = None, source = None \<rparr>"

section \<open>Normalizer\<close>

text \<open>
  \<^verbatim>\<open>tweet.author || { userName: tweet.user?.userName || tweet.user?.username || 'unknown', ... }\<close>
\<close>

definition userProp :: "raw_user option \<Rightarrow> (raw_user \<Rightarrow> string option) \<Rightarrow> string option" where
  "userProp u f = (case u of None \<Rightarrow> None | Some x \<Rightarrow> f x)"

definition metricsProp :: "public_metrics option \<Rightarrow> (public_metrics \<Rightarrow> int option) \<Rightarrow> int option" where
  "metricsProp m f = (case m of None \<Rightarrow> None | Some x \<Rightarrow> f x)"

definition orDefault :: "string option \<Rightarrow> string \<Rightarrow> string" where
  "orDefault a d = (case a of None \<Rightarrow> d | Some s \<Rightarrow> if s \<noteq> [] then s else d)"

definition authorOf :: "raw_fields \<Rightarrow> author" where
  "authorOf r = (case raw_author r of
     Some a \<Rightarrow> a
   | None \<Rightarrow> \<lparr> userName = orDefault (orStr (userProp (raw_user r) user_userName)
                                           (userProp (raw_user r) user_username)) ''unknown'',
               name = orDefault (userProp (raw_user r) user_name) ''Unknown User'',
               profilePicture = orDefault (orStr (userProp (raw_user r) user_profilePicture)
                                           (userProp (raw_user r) user_profile_image_url)) '''' \<rparr>)"

text \<open>
  The candidate list for the reply-target id. \<^verbatim>\<open>processRawTweet\<close> uses all seven
  candidates; the loop over the primary batch in \<^verbatim>\<open>fetchUserTweets\<close> uses the first six.
\<close>

definition replyId6 :: "raw_fields \<Rightarrow> string option" where
  "replyId6 r =
     orStr (raw_in_reply_to_status_id r)
    (orStr (raw_in_reply_to_tweet_id r)
    (orStr (raw_inReplyToStatusId r)
    (orStr (raw_inReplyToTweetId r)
    (orStr (raw_reply_to_status_id r)
           (raw_reply_to_tweet_id r)))))"

definition replyId7 :: "raw_fields \<Rightarrow> string option" where
  "replyId7 r =
     orStr (raw_in_reply_to_status_id r)
    (orStr (raw_in_reply_to_tweet_id r)
    (orStr (raw_inReplyToStatusId r)
    (orStr (raw_inReplyToTweetId r)
    (orStr (raw_reply_to_status_id r)
    (orStr (raw_reply_to_tweet_id r)
           (raw_inReplyToId r))))))"

text \<open>
  \<^verbatim>\<open>tweet.isReply !== undefined ? tweet.isReply : (!!replyId)\<close>. A \<^verbatim>\<open>null\<close> is kept;
  of the \<^verbatim>\<open>isReply\<close> of a canonical record only the truth value is read afterwards, so
  there \<open>None\<close> stands for a \<^verbatim>\<open>null\<close> as well.
\<close>

definition isReplyOf :: "raw_fields \<Rightarrow> string option \<Rightarrow> bool option" where
  "isReplyOf r replyId =
     (case raw_isReply r of
        None \<Rightarrow> Some (truthy replyId)
      | Some IsNull \<Rightarrow> None
      | Some (NotNull b) \<Rightarrow> Some b)"

definition processRawTweet :: "raw option \<Rightarrow> tweet option" where
  "processRawTweet tw = (case tw of
     None \<Rightarrow> None
   | Some t \<Rightarrow>
       let r = flat t in
       if \<not> truthy (raw_id r) then None
       else
         let replyId = replyId7 r in
         Some (Tweet
           \<lparr> tweetId = raw_id r,
             tweetText = orStr (raw_text r) (orStr (raw_full_text r) (Some '''')),
             createdAt = map_option NotNull
                           (orStr (valueOf (raw_createdAt r)) (orStr (raw_created_at r) (Some ''''))),
             url = raw_url r,
             author = Some (authorOf r),
             likeCount = orNum (raw_likeCount r) (orNum (raw_like_count r)
                           (orNum (metricsProp (raw_public_metrics r) like_count) (Some 0))),
             retweetCount = orNum (raw_retweetCount r) (orNum (raw_retweet_count r)
                           (orNum (metricsProp (raw_public_metrics r) retweet_count) (Some 0))),
             replyCount = orNum (raw_replyCount r) (orNum (raw_reply_count r)
                           (orNum (metricsProp (raw_public_metrics r) reply_count) (Some 0))),
             quoteCount = orNum (raw_quoteCount r) (orNum (raw_quote_count r)
                           (orNum (metricsProp (raw_public_metrics r) quote_count) (Some 0))),
             viewCount = orNum (raw_viewCount r) (orNum (raw_view_count r)
                           (metricsProp (raw_public_metrics r) impression_count)),
             entities = raw_entities r,
             tweetCard = orObj (raw_card r) (raw_Card r),
             inReplyToStatusId = orStr (raw_in_reply_to_status_id r) (raw_inReplyToStatusId r),
             inReplyToTweetId = orStr (raw_in_reply_to_tweet_id r) (raw_inReplyToTweetId r),
             referencedTweets = orObj (raw_referenced_tweets t) (raw_referencedTweets t),
             isReply = isReplyOf r replyId,
             inReplyToId = orStr (raw_inReplyToId r) (orStr replyId None),
             conversationId = orStr (raw_conversationId r) None,
             inReplyToUserId = orStr (raw_inReplyToUserId r) None,
             inReplyToUsername = orStr (raw_inReplyToUsername r) None,
             displayTextRange = orObj (raw_displayTextRange r) None,
             source = None \<rparr>
           None None))"

text \<open>
  The second entry point: the snapshot shown inside a reply. The object literal lists the
  display properties only; no reply linkage, no \<^verbatim>\<open>repliedTo\<close>, no \<^verbatim>\<open>children\<close>. It does
  not test the id.
\<close>

definition createCleanRepliedToTweet :: "raw option \<Rightarrow> tweet option" where
  "createCleanRepliedToTweet tw = (case tw of
     None \<Rightarrow> None
   | Some t \<Rightarrow>
       let r = flat t in
       Some (Tweet
         (noFields
           \<lparr> tweetId := raw_id r,
             tweetText := orStr (raw_text r) (orStr (raw_full_text r) (Some '''')),
             createdAt := map_option NotNull
                           (orStr (valueOf (raw_createdAt r)) (orStr (raw_created_at r) (Some ''''))),
             url := raw_url r,
             author := Some (authorOf r),
             likeCount := orNum (raw_likeCount r) (orNum (raw_like_count r)
                           (orNum (metricsProp (raw_public_metrics r) like_count) (Some 0))),
             retweetCount := orNum (raw_retweetCount r) (orNum (raw_retweet_count r)
                           (orNum (metricsProp (raw_public_metrics r) retweet_count) (Some 0))),
             replyCount := orNum (raw_replyCount r) (orNum (raw_reply_count r)
                           (orNum (metricsProp (raw_public_metrics r) reply_count) (Some 0))),
             quoteCount := orNum (raw_quoteCount r) (orNum (raw_quote_count r)
                           (orNum (metricsProp (raw_public_metrics r) quote_count) (Some 0))),
             viewCount := orNum (raw_viewCount r) (orNum (raw_view_count r)
                           (metricsProp (raw_public_metrics r) impression_count)),
             entities := raw_entities r,
             tweetCard := orObj (raw_card r) (raw_Card r) \<rparr>)
         None None))"

section \<open>The fetched response and its three batches\<close>

text \<open>
  A position of the parsed response where a batch is expected can hold any JSON value.
  \<open>JObject\<close> stands for any JSON object (it has no callable property), \<open>JArray\<close> carries
  the elements, each a record or \<^verbatim>\<open>null\<close>.
\<close>

datatype 'a jsval = JUndefined | JNull | JBool bool | JNum int | JStr string | JObject | JArray "'a list"

fun jtruthy :: "'a jsval \<Rightarrow> bool" where
  "jtruthy JUndefined = False"
| "jtruthy JNull = False"
| "jtruthy (JBool b) = b"
| "jtruthy (JNum n) = (n \<noteq> 0)"
| "jtruthy (JStr s) = (s \<noteq> [])"
| "jtruthy JObject = True"
| "jtruthy (JArray xs) = True"

definition jor :: "'a jsval \<Rightarrow> 'a jsval \<Rightarrow> 'a jsval" where
  "jor a b = (if jtruthy a then a else b)"

type_synonym batch = "raw option jsval"

record includes_obj =
  includes_tweets :: batch

record api_data =
  data_tweets :: batch
  data_includes :: "includes_obj option"
  data_replied_to_tweets :: batch
  data_repliedToTweets :: batch

record api_response =
  resp_data :: "api_data option"
  resp_includes :: "includes_obj option"
  resp_replied_to_tweets :: batch

text \<open>\<^verbatim>\<open>x?.p\<close> on an optional object.\<close>

definition optProp :: "'o option \<Rightarrow> ('o \<Rightarrow> 'a jsval) \<Rightarrow> 'a jsval" where
  "optProp x p = (case x of None \<Rightarrow> JUndefined | Some v \<Rightarrow> p v)"

definition optObj :: "'o option \<Rightarrow> ('o \<Rightarrow> 'p option) \<Rightarrow> 'p option" where
  "optObj x p = (case x of None \<Rightarrow> None | Some v \<Rightarrow> p v)"

text \<open>\<^verbatim>\<open>apiResponse.data?.tweets || []\<close>\<close>

definition rawTweetsOf :: "api_response \<Rightarrow> batch" where
  "rawTweetsOf resp = jor (optProp (resp_data resp) data_tweets) (JArray [])"

text \<open>\<^verbatim>\<open>data?.includes?.tweets || apiResponse?.includes?.tweets || []\<close>\<close>

definition includesTweetsOf :: "api_response \<Rightarrow> batch" where
  "includesTweetsOf resp =
     jor (optProp (optObj (resp_data resp) data_includes) includes_tweets)
    (jor (optProp (resp_includes resp) includes_tweets)
         (JArray []))"

text \<open>\<^verbatim>\<open>data?.replied_to_tweets || data?.repliedToTweets || apiResponse?.replied_to_tweets || []\<close>\<close>

definition repliedToTweetsOf :: "api_response \<Rightarrow> batch" where
  "repliedToTweetsOf resp =
     jor (optProp (resp_data resp) data_replied_to_tweets)
    (jor (optProp (resp_data resp) data_repliedToTweets)
    (jor (resp_replied_to_tweets resp)
         (JArray [])))"

section \<open>Provenance merger and reply resolver (fetchUserTweets)\<close>

text \<open>
  The lookup table \<^verbatim>\<open>tweetMap\<close>: every record of the included and replied-to batches
  with a truthy id (a later one replaces an earlier one), then the records of the primary
  batch whose id is not yet a key.
\<close>

definition setAlways :: "(string \<rightharpoonup> raw) \<Rightarrow> raw option \<Rightarrow> (string \<rightharpoonup> raw)" where
  "setAlways m tw = (case tw of
     None \<Rightarrow> m
   | Some t \<Rightarrow> (case raw_id (flat t) of
        None \<Rightarrow> m
      | Some i \<Rightarrow> if i \<noteq> [] then m(i \<mapsto> t) else m))"

definition setIfAbsent :: "(string \<rightharpoonup> raw) \<Rightarrow> raw option \<Rightarrow> (string \<rightharpoonup> raw)" where
  "setIfAbsent m tw = (case tw of
     None \<Rightarrow> m
   | Some t \<Rightarrow> (case raw_id (flat t) of
        None \<Rightarrow> m
      | Some i \<Rightarrow> if i \<noteq> [] \<and> m i = None then m(i \<mapsto> t) else m))"

definition buildTweetMap :: "raw option list \<Rightarrow> raw option list \<Rightarrow> raw option list \<Rightarrow> (string \<rightharpoonup> raw)" where
  "buildTweetMap rawTweets includesTweets repliedToTweets =
     foldl setIfAbsent (foldl setAlways Map.empty (includesTweets @ repliedToTweets)) rawTweets"

text \<open>\<^verbatim>\<open>tweetMap.has(k)\<close> and \<^verbatim>\<open>tweetMap.get(k)\<close> for a property \<open>k\<close> that may be absent.\<close>

definition mapGet :: "(string \<rightharpoonup> 'v) \<Rightarrow> string option \<Rightarrow> 'v option" where
  "mapGet m k = (case k of None \<Rightarrow> None | Some i \<Rightarrow> m i)"

text \<open>
  The entry of a reference list that marks the reply target:
  \<^verbatim>\<open>ref.type === 'replied_to' || ref.type === 'repliedTo' || ref.reference_type === ...\<close>
\<close>

definition isRepliedToRef :: "rawref \<Rightarrow> bool" where
  "isRepliedToRef ref \<longleftrightarrow>
     (ref_type ref = Some ''replied_to'' \<or> ref_type ref = Some ''repliedTo'') \<or>
     (ref_reference_type ref = Some ''replied_to'' \<or> ref_reference_type ref = Some ''repliedTo'')"

text \<open>
  Steps 1 and 2 of the resolver: the inline record, else the reference list (inline record
  of the entry, else the entry's id in the lookup table).
\<close>

definition resolveEmbedded :: "(string \<rightharpoonup> raw) \<Rightarrow> raw \<Rightarrow> tweet option" where
  "resolveEmbedded tweetMap t =
     (case orObj (raw_replied_to t) (raw_repliedTo t) of
        Some rawRepliedTo \<Rightarrow> createCleanRepliedToTweet (Some rawRepliedTo)
      | None \<Rightarrow>
         (case orObj (raw_referenced_tweets t) (raw_referencedTweets t) of
            None \<Rightarrow> None
          | Some referencedTweetsArray \<Rightarrow>
             (case find isRepliedToRef referencedTweetsArray of
                None \<Rightarrow> None
              | Some repliedToRef \<Rightarrow>
                 (case ref_tweet repliedToRef of
                    Some nested \<Rightarrow> createCleanRepliedToTweet (Some nested)
                  | None \<Rightarrow>
                     if truthy (ref_id repliedToRef) \<and> mapGet tweetMap (ref_id repliedToRef) \<noteq> None
                     then createCleanRepliedToTweet (mapGet tweetMap (ref_id repliedToRef))
                     else None))))"

text \<open>
  Step 3: when a reply id was found and no snapshot yet, the lookup table, else the primary
  batch itself (\<^verbatim>\<open>rawTweets.find(t => t.id === replyId)\<close>).
\<close>

definition resolveById :: "(string \<rightharpoonup> raw) \<Rightarrow> raw list \<Rightarrow> string option \<Rightarrow> tweet option \<Rightarrow> tweet option" where
  "resolveById tweetMap rawTweets replyId found =
     (if truthy replyId \<and> found = None then
        (if mapGet tweetMap replyId \<noteq> None then createCleanRepliedToTweet (mapGet tweetMap replyId)
         else (case find (\<lambda>t. raw_id (flat t) = replyId) rawTweets of
                 Some repliedToTweet \<Rightarrow> createCleanRepliedToTweet (Some repliedToTweet)
               | None \<Rightarrow> None))
      else found)"

text \<open>
  One element of \<^verbatim>\<open>processedMainTweets\<close>. The object literal starts with
  \<^verbatim>\<open>...tweet\<close>, so the properties it does not list keep the raw value: no defaults for
  \<^verbatim>\<open>text\<close>, \<^verbatim>\<open>createdAt\<close>, \<^verbatim>\<open>author\<close> or the counts, and the id is not tested.
\<close>

definition processMainTweet :: "(string \<rightharpoonup> raw) \<Rightarrow> raw list \<Rightarrow> raw \<Rightarrow> tweet" where
  "processMainTweet tweetMap rawTweets t =
     (let r = flat t;
          replyId = replyId6 r
      in Tweet
        \<lparr> tweetId = raw_id r,
          tweetText = raw_text r,
          createdAt = raw_createdAt r,
          url = raw_url r,
          author = raw_author r,
          likeCount = raw_likeCount r,
          retweetCount = raw_retweetCount r,
          replyCount = raw_replyCount r,
          quoteCount = raw_quoteCount r,
          viewCount = orNum (raw_viewCount r) (orNum (raw_view_count r) None),
          entities = raw_entities r,
          tweetCard = orObj (raw_card r) (orObj (raw_Card r) None),
          inReplyToStatusId = orStr (raw_in_reply_to_status_id r) (raw_inReplyToStatusId r),
          inReplyToTweetId = orStr (raw_in_reply_to_tweet_id r) (raw_inReplyToTweetId r),
          referencedTweets = orObj (raw_referenced_tweets t) (raw_referencedTweets t),
          isReply = isReplyOf r replyId,
          inReplyToId = orStr (raw_inReplyToId r) (orStr replyId None),
          conversationId = orStr (raw_conversationId r) None,
          inReplyToUserId = orStr (raw_inReplyToUserId r) None,
          inReplyToUsername = orStr (raw_inReplyToUsername r) None,
          displayTextRange = orObj (raw_displayTextRange r) None,
          source = Some SrcMain \<rparr>
        (resolveById tweetMap rawTweets replyId (resolveEmbedded tweetMap t))
        None)"

text \<open>
  The supplementary batches. A referencing record is the first record of
  \<^verbatim>\<open>processedMainTweets\<close> that names the supplementary record's id in one of its reply
  properties; for the included batch an entry of its reference list counts too
  (\<^verbatim>\<open>t.referencedTweets?.some(ref => ref.id === tweet.id)\<close>).
\<close>

definition matchesReplyId :: "string option \<Rightarrow> tweet \<Rightarrow> bool" where
  "matchesReplyId i t \<longleftrightarrow>
     inReplyToId (props t) = i \<or> inReplyToStatusId (props t) = i \<or> inReplyToTweetId (props t) = i"

definition matchesReferenced :: "string option \<Rightarrow> tweet \<Rightarrow> bool" where
  "matchesReferenced i t \<longleftrightarrow>
     (case referencedTweets (props t) of
        None \<Rightarrow> False
      | Some refs \<Rightarrow> list_ex (\<lambda>ref. ref_id ref = i) refs)"

definition referencesIncluded :: "string option \<Rightarrow> tweet \<Rightarrow> bool" where
  "referencesIncluded i t \<longleftrightarrow> matchesReplyId i t \<or> matchesReferenced i t"

definition setConversationId :: "string option \<Rightarrow> tweet \<Rightarrow> tweet" where
  "setConversationId c t = Tweet ((props t)\<lparr>conversationId := c\<rparr>) (repliedTo t) (children t)"

definition setSource :: "source \<Rightarrow> tweet \<Rightarrow> tweet" where
  "setSource s t = Tweet ((props t)\<lparr>source := Some s\<rparr>) (repliedTo t) (children t)"

text \<open>
  \<^verbatim>\<open>referencingTweet.conversationId = referencingTweet.id\<close> writes into the object found
  by \<^verbatim>\<open>find\<close>, that is the first element of the array that satisfies the predicate.
\<close>

fun mutateFirst :: "('a \<Rightarrow> bool) \<Rightarrow> ('a \<Rightarrow> 'a) \<Rightarrow> 'a list \<Rightarrow> 'a list" where
  "mutateFirst P f [] = []"
| "mutateFirst P f (x # xs) = (if P x then f x # xs else x # mutateFirst P f xs)"

definition adoptConversation :: "(tweet \<Rightarrow> bool) \<Rightarrow> tweet list \<Rightarrow> tweet \<Rightarrow> tweet list \<times> tweet" where
  "adoptConversation referencing mainTweets processed =
     (case find referencing mainTweets of
        None \<Rightarrow> (mainTweets, processed)
      | Some referencingTweet \<Rightarrow>
          if truthy (conversationId (props referencingTweet))
          then (mainTweets, setConversationId (conversationId (props referencingTweet)) processed)
          else if truthy (tweetId (props referencingTweet))
          then (mutateFirst referencing (setConversationId (tweetId (props referencingTweet))) mainTweets,
                setConversationId (tweetId (props referencingTweet)) processed)
          else (mainTweets, processed))"

text \<open>\<^verbatim>\<open>tweet && tweet.id && !mainTweetIds.has(tweet.id)\<close>\<close>

definition isValid :: "string option set \<Rightarrow> raw option \<Rightarrow> bool" where
  "isValid mainTweetIds tw \<longleftrightarrow>
     (case tw of None \<Rightarrow> False
      | Some t \<Rightarrow> truthy (raw_id (flat t)) \<and> raw_id (flat t) \<notin> mainTweetIds)"

text \<open>
  The \<^verbatim>\<open>map\<close> over the filtered batch, with the array \<^verbatim>\<open>processedMainTweets\<close> that its
  callback mutates passed along; a record that \<^verbatim>\<open>processRawTweet\<close> rejects is dropped by
  the final \<^verbatim>\<open>filter\<close>.
\<close>

fun mapSupplementary ::
  "source \<Rightarrow> (string option \<Rightarrow> tweet \<Rightarrow> bool) \<Rightarrow> tweet list \<Rightarrow> raw option list \<Rightarrow> tweet list \<times> tweet list" where
  "mapSupplementary src referencing mainTweets [] = (mainTweets, [])"
| "mapSupplementary src referencing mainTweets (tw # rest) =
     (case processRawTweet tw of
        None \<Rightarrow> mapSupplementary src referencing mainTweets rest
      | Some processed \<Rightarrow>
          (case adoptConversation (referencing (optObj tw (\<lambda>t. raw_id (flat t)))) mainTweets
                  (setSource src processed) of
             (mainTweets1, processed1) \<Rightarrow>
               (case mapSupplementary src referencing mainTweets1 rest of
                  (mainTweets2, others) \<Rightarrow> (mainTweets2, processed1 # others))))"

definition processSupplementary ::
  "source \<Rightarrow> (string option \<Rightarrow> tweet \<Rightarrow> bool) \<Rightarrow> tweet list \<Rightarrow> raw option list \<Rightarrow> tweet list \<times> tweet list" where
  "processSupplementary src referencing mainTweets batch =
     mapSupplementary src referencing mainTweets
       (filter (isValid (set (map (\<lambda>t. tweetId (props t)) mainTweets))) batch)"

text \<open>
  The three processed lists before they are concatenated. An element \<^verbatim>\<open>null\<close> of the
  primary batch makes the first property read of the \<^verbatim>\<open>map\<close> callback throw.
\<close>

definition mergeBatches ::
  "raw option list \<Rightarrow> raw option list \<Rightarrow> raw option list \<Rightarrow> js_error + (tweet list \<times> tweet list \<times> tweet list)" where
  "mergeBatches rawTweets includesTweets repliedToTweets =
     (case those rawTweets of
        None \<Rightarrow> Inl TypeError
      | Some raws \<Rightarrow>
          let tweetMap = buildTweetMap rawTweets includesTweets repliedToTweets;
              processedMainTweets = map (processMainTweet tweetMap raws) raws
          in (case processSupplementary SrcIncludes referencesIncluded processedMainTweets includesTweets of
                (mainTweets1, processedIncludesTweets) \<Rightarrow>
                  (case processSupplementary SrcRepliedTo matchesReplyId mainTweets1 repliedToTweets of
                     (mainTweets2, processedRepliedToTweets) \<Rightarrow>
                       Inr (mainTweets2, processedIncludesTweets, processedRepliedToTweets))))"

text \<open>
  \<^verbatim>\<open>allTweets\<close>, and the summary log that reads \<^verbatim>\<open>allTweets[0].text.substring(0, 50)\<close>:
  it throws when the first record has no text.
\<close>

definition processBatches ::
  "raw option list \<Rightarrow> raw option list \<Rightarrow> raw option list \<Rightarrow> js_error + tweet list" where
  "processBatches rawTweets includesTweets repliedToTweets =
     (case mergeBatches rawTweets includesTweets repliedToTweets of
        Inl e \<Rightarrow> Inl e
      | Inr (processedMainTweets, processedIncludesTweets, processedRepliedToTweets) \<Rightarrow>
          let allTweets = processedMainTweets @ processedIncludesTweets @ processedRepliedToTweets
          in (case allTweets of
                [] \<Rightarrow> Inr allTweets
              | first # _ \<Rightarrow>
                  if tweetText (props first) = None then Inl TypeError else Inr allTweets))"

text \<open>
  The part of \<^verbatim>\<open>fetchUserTweets\<close> after \<^verbatim>\<open>JSON.parse\<close>. Each of the three selected
  values receives an array method call (\<^verbatim>\<open>forEach\<close>, \<^verbatim>\<open>filter\<close>), which throws a TypeError
  on anything that is not an array; the \<^verbatim>\<open>catch\<close> block throws the error again.
\<close>

definition fetchUserTweets :: "api_response \<Rightarrow> js_error + tweet list" where
  "fetchUserTweets resp =
     (case rawTweetsOf resp of
        JArray rawTweets \<Rightarrow>
          (case includesTweetsOf resp of
             JArray includesTweets \<Rightarrow>
               (case repliedToTweetsOf resp of
                  JArray repliedToTweets \<Rightarrow> processBatches rawTweets includesTweets repliedToTweets
                | _ \<Rightarrow> Inl TypeError)
           | _ \<Rightarrow> Inl TypeError)
      | _ \<Rightarrow> Inl TypeError)"

section \<open>Thread tree builder (organizeTweetsIntoThreads)\<close>

text \<open>
  The map \<^verbatim>\<open>tweetMap\<close> of the builder holds, for every truthy id, a copy
  \<^verbatim>\<open>{ ...tweet, children: [] }\<close> of the last record of the input with that id.
\<close>

definition withNoChildren :: "tweet \<Rightarrow> tweet" where
  "withNoChildren t = Tweet (props t) (repliedTo t) (Some [])"

definition threadMapGet :: "tweet list \<Rightarrow> string option \<Rightarrow> tweet option" where
  "threadMapGet tweets k =
     (if truthy k
      then map_option withNoChildren (find (\<lambda>t. tweetId (props t) = k) (rev tweets))
      else None)"

text \<open>
  \<^verbatim>\<open>{ ...tweetMap.get(id)!, children: [] }\<close>. Spreading \<^verbatim>\<open>undefined\<close> adds no property,
  so an id that is not a key gives an object with an empty \<^verbatim>\<open>children\<close> array only.
\<close>

definition copyOf :: "tweet list \<Rightarrow> string option \<Rightarrow> tweet" where
  "copyOf tweets k =
     (case threadMapGet tweets k of
        Some t \<Rightarrow> withNoChildren t
      | None \<Rightarrow> Tweet noFields None (Some []))"

text \<open>
  The grouping loop. A JavaScript \<^verbatim>\<open>Map\<close> iterates in the order in which its keys were
  first set, so the groups are kept as an association list in that order.
\<close>

fun pushInto :: "string \<Rightarrow> 'a \<Rightarrow> (string \<times> 'a list) list \<Rightarrow> (string \<times> 'a list) list" where
  "pushInto c t [] = [(c, [t])]"
| "pushInto c t ((c', ts) # groups) =
     (if c = c' then (c', ts @ [t]) # groups else (c', ts) # pushInto c t groups)"

definition groupStep :: "(string \<times> tweet list) list \<Rightarrow> tweet \<Rightarrow> (string \<times> tweet list) list" where
  "groupStep groups t =
     (case conversationId (props t) of
        None \<Rightarrow> groups
      | Some c \<Rightarrow> if c \<noteq> [] then pushInto c t groups else groups)"

definition conversationMapOf :: "tweet list \<Rightarrow> (string \<times> tweet list) list" where
  "conversationMapOf tweets = foldl groupStep [] tweets"

definition orphanTweetsOf :: "tweet list \<Rightarrow> tweet list" where
  "orphanTweetsOf tweets = filter (\<lambda>t. \<not> truthy (conversationId (props t))) tweets"

text \<open>\<^verbatim>\<open>!tweet.isReply || !tweet.inReplyToId\<close>\<close>

definition notAReply :: "tweet \<Rightarrow> bool" where
  "notAReply t \<longleftrightarrow> isReply (props t) \<noteq> Some True \<or> \<not> truthy (inReplyToId (props t))"

text \<open>The filter that selects \<^verbatim>\<open>rootTweetsInConversation\<close>.\<close>

definition isRootIn :: "tweet list \<Rightarrow> tweet \<Rightarrow> bool" where
  "isRootIn conversationTweets t \<longleftrightarrow>
     notAReply t \<or>
     inReplyToId (props t) \<notin> set (map (\<lambda>c. tweetId (props c)) conversationTweets)"

text \<open>\<^verbatim>\<open>t.inReplyToId === parentTweet.id && t.id !== parentTweet.id\<close>\<close>

definition repliesTo :: "tweet \<Rightarrow> tweet \<Rightarrow> bool" where
  "repliesTo parentTweet t \<longleftrightarrow>
     inReplyToId (props t) = tweetId (props parentTweet) \<and>
     tweetId (props t) \<noteq> tweetId (props parentTweet)"

definition idUniverse :: "tweet list \<Rightarrow> string option set" where
  "idUniverse tweets = insert None (set (map (\<lambda>t. tweetId (props t)) tweets))"

text \<open>
  The closure \<^verbatim>\<open>attachChildren\<close>. It writes \<^verbatim>\<open>parentTweet.children\<close> and adds to the
  set \<^verbatim>\<open>processedIds\<close> that all calls for one conversation share: the function returns the
  node with its children and the set as it stands afterwards. \<open>attachEach\<close> is the callback
  sequence of \<^verbatim>\<open>children.map\<close>, and equally of \<^verbatim>\<open>rootTweetsInConversation.forEach\<close>:
  copy the record out of \<^verbatim>\<open>tweetMap\<close>, call \<^verbatim>\<open>attachChildren\<close> on the copy, collect it.
\<close>

function attachChildren ::
    "tweet list \<Rightarrow> tweet list \<Rightarrow> string option set \<Rightarrow> tweet \<Rightarrow> tweet \<times> string option set"
  and attachEach ::
    "tweet list \<Rightarrow> tweet list \<Rightarrow> string option set \<Rightarrow> tweet list \<Rightarrow> tweet list \<times> string option set"
where
  "attachChildren tweets conversationTweets processedIds parentTweet =
     (if tweetId (props parentTweet) \<in> processedIds then (parentTweet, processedIds)
      else
        (case filter (repliesTo parentTweet) conversationTweets of
           [] \<Rightarrow> (parentTweet, insert (tweetId (props parentTweet)) processedIds)
         | child # rest \<Rightarrow>
             (case attachEach tweets conversationTweets
                     (insert (tweetId (props parentTweet)) processedIds) (child # rest) of
                (cs, processedIds1) \<Rightarrow>
                  (Tweet (props parentTweet) (repliedTo parentTweet) (Some cs), processedIds1))))"
| "attachEach tweets conversationTweets processedIds [] = ([], processedIds)"
| "attachEach tweets conversationTweets processedIds (child # rest) =
     (case attachChildren tweets conversationTweets processedIds
             (copyOf tweets (tweetId (props child))) of
        (childCopy, processedIds1) \<Rightarrow>
          (case attachEach tweets conversationTweets processedIds1 rest of
             (cs, processedIds2) \<Rightarrow> (childCopy # cs, processedIds2)))"
  by pat_completeness auto

text \<open>
  Termination: every call that passes the test adds an id that was not in
  \<^verbatim>\<open>processedIds\<close>, and the ids of copies are drawn from the finite set of ids of the input
  (or are \<^verbatim>\<open>undefined\<close>); the set never shrinks.
\<close>

termination
proof -
  have mono:
    "attachChildren_attachEach_dom (Inl (tweets, conv, P, t)) \<Longrightarrow>
       P \<subseteq> snd (attachChildren tweets conv P t)"
    "attachChildren_attachEach_dom (Inr (tweets, conv, P, ts)) \<Longrightarrow>
       P \<subseteq> snd (attachEach tweets conv P ts)"
    for tweets conv P t ts
  proof (induction tweets conv P t and tweets conv P ts rule: attachChildren_attachEach.pinduct)
    case (1 tweets conv P t)
    then show ?case
      by (fastforce simp: attachChildren.psimps split: list.splits prod.splits)
  next
    case (2 tweets conv P)
    then show ?case by (simp add: attachEach.psimps)
  next
    case (3 tweets conv P child rest)
    then show ?case
      by (fastforce simp: attachEach.psimps split: prod.splits)
  qed
  have found: "find Q xs = Some x \<Longrightarrow> x \<in> set xs \<and> Q x" for Q and xs :: "tweet list" and x
    by (induction xs) (auto split: if_splits)
  have copy_id: "tweetId (props (copyOf tweets k)) \<in> idUniverse tweets" for tweets k
    by (auto simp: copyOf_def threadMapGet_def withNoChildren_def idUniverse_def noFields_def
        split: option.splits dest!: found)
  have step: "card (U - insert i P) < card (insert i U - P)"
    if "finite U" "i \<notin> P" for U P :: "string option set" and i
  proof -
    have "U - insert i P \<subset> insert i U - P" using that by auto
    then show ?thesis using that by (intro psubset_card_mono) auto
  qed
  show ?thesis
  proof (relation "inv_image (less_than <*lex*> less_than)
      (\<lambda>x. case x of
         Inl (tweets, conv, P, t) \<Rightarrow>
           (card (insert (tweetId (props t)) (idUniverse tweets) - P), 0::nat)
       | Inr (tweets, conv, P, ts) \<Rightarrow> (card (idUniverse tweets - P), Suc (length ts)))",
      goal_cases)
    case 1
    then show ?case by (intro wf_inv_image wf_lex_prod wf_less_than)
  next
    case (2 tweets conv P t child rest)
    then show ?case by (simp add: step idUniverse_def)
  next
    case (3 tweets conv P child rest)
    then show ?case by (simp add: insert_absorb [OF copy_id])
  next
    case (4 tweets conv P child rest x y)
    then have "P \<subseteq> y" using mono(1) by (metis snd_conv)
    then have "card (idUniverse tweets - y) \<le> card (idUniverse tweets - P)"
      by (intro card_mono) (auto simp: idUniverse_def)
    then show ?case by auto
  qed
qed

text \<open>One conversation: its roots, each built in turn with a fresh \<^verbatim>\<open>processedIds\<close> set.\<close>

definition processConversation :: "tweet list \<Rightarrow> tweet list \<Rightarrow> tweet list" where
  "processConversation tweets conversationTweets =
     fst (attachEach tweets conversationTweets {}
            (filter (isRootIn conversationTweets) conversationTweets))"

text \<open>
  One record without conversation id. A reply whose parent is found in the input and has a
  conversation id is only logged (\<^verbatim>\<open>conversationMap.get\<close> then always finds the group);
  nothing is pushed for it.
\<close>

definition placeOrphan :: "tweet list \<Rightarrow> tweet \<Rightarrow> tweet list" where
  "placeOrphan tweets t =
     (if notAReply t then [copyOf tweets (tweetId (props t))]
      else
        (case find (\<lambda>p. tweetId (props p) = inReplyToId (props t)) tweets of
           Some parentTweet \<Rightarrow>
             if truthy (conversationId (props parentTweet)) then []
             else [copyOf tweets (tweetId (props t))]
         | None \<Rightarrow> [copyOf tweets (tweetId (props t))]))"

definition organizeTweetsIntoThreads :: "tweet list \<Rightarrow> tweet list" where
  "organizeTweetsIntoThreads tweets =
     concat (map (\<lambda>(conversationId, conversationTweets).
                    processConversation tweets conversationTweets)
                 (conversationMapOf tweets))
     @ concat (map (placeOrphan tweets) (orphanTweetsOf tweets))"

section \<open>The thread builder on a store of objects\<close>

text \<open>
  The functions above compute with values. To speak about which objects the builder writes
  to, the same code is modelled on a store: an object has an address, the array \<^verbatim>\<open>tweets\<close>
  holds addresses, \<^verbatim>\<open>{ ...x, children: [] }\<close> allocates a new object, and
  \<^verbatim>\<open>parentTweet.children = ...\<close> overwrites a property of the object at an address. The
  spread is shallow: the copy refers to the same \<^verbatim>\<open>repliedTo\<close> object. Arrays that the
  builder creates are never changed after their creation, so a \<^verbatim>\<open>children\<close> array is kept
  as the list of the addresses it holds.
\<close>

type_synonym addr = nat

record obj =
  o_props :: tweet_fields
  o_repliedTo :: "addr option"
  o_children :: "addr list option"

type_synonym store = "obj list"

text \<open>The object literal \<^verbatim>\<open>{ children: [] }\<close>.\<close>

definition emptyObj :: obj where
  "emptyObj = \<lparr> o_props = noFields, o_repliedTo = None, o_children = Some [] \<rparr>"

text \<open>
  Reading through a reference. Every reference of a JavaScript program points to an object;
  for an address outside the store the model reads the empty object.
\<close>

definition load :: "store \<Rightarrow> addr \<Rightarrow> obj" where
  "load h a = (if a < length h then h ! a else emptyObj)"

definition idAt :: "store \<Rightarrow> addr \<Rightarrow> string option" where
  "idAt h a = tweetId (o_props (load h a))"

definition replyTargetAt :: "store \<Rightarrow> addr \<Rightarrow> string option" where
  "replyTargetAt h a = inReplyToId (o_props (load h a))"

definition conversationAt :: "store \<Rightarrow> addr \<Rightarrow> string option" where
  "conversationAt h a = conversationId (o_props (load h a))"

text \<open>\<^verbatim>\<open>parentTweet.children = cs\<close>\<close>

definition setChildren :: "store \<Rightarrow> addr \<Rightarrow> addr list \<Rightarrow> store" where
  "setChildren h a cs = (if a < length h then h[a := (h ! a)\<lparr> o_children := Some cs \<rparr>] else h)"

text \<open>
  The first loop: for every record with a truthy id a copy \<^verbatim>\<open>{ ...tweet, children: [] }\<close>
  is allocated and \<^verbatim>\<open>tweetMap\<close> maps the id to it.
\<close>

definition mapStepH :: "store \<times> (string \<rightharpoonup> addr) \<Rightarrow> addr \<Rightarrow> store \<times> (string \<rightharpoonup> addr)" where
  "mapStepH s a =
     (case s of (h, m) \<Rightarrow>
        (case idAt h a of
           None \<Rightarrow> (h, m)
         | Some i \<Rightarrow>
             if i \<noteq> [] then (h @ [(load h a)\<lparr> o_children := Some [] \<rparr>], m(i \<mapsto> length h))
             else (h, m)))"

definition buildMapH :: "store \<Rightarrow> addr list \<Rightarrow> store \<times> (string \<rightharpoonup> addr)" where
  "buildMapH h tweets = foldl mapStepH (h, Map.empty) tweets"

text \<open>The object that \<^verbatim>\<open>{ ...tweetMap.get(id)!, children: [] }\<close> creates.\<close>

definition newCopy :: "store \<Rightarrow> (string \<rightharpoonup> addr) \<Rightarrow> string option \<Rightarrow> obj" where
  "newCopy h m k =
     (case mapGet m k of
        Some a \<Rightarrow> (load h a)\<lparr> o_children := Some [] \<rparr>
      | None \<Rightarrow> emptyObj)"

definition groupStepH :: "store \<Rightarrow> (string \<times> addr list) list \<Rightarrow> addr \<Rightarrow> (string \<times> addr list) list" where
  "groupStepH h groups a =
     (case conversationAt h a of
        None \<Rightarrow> groups
      | Some c \<Rightarrow> if c \<noteq> [] then pushInto c a groups else groups)"

definition conversationMapH :: "store \<Rightarrow> addr list \<Rightarrow> (string \<times> addr list) list" where
  "conversationMapH h tweets = foldl (groupStepH h) [] tweets"

definition orphanTweetsH :: "store \<Rightarrow> addr list \<Rightarrow> addr list" where
  "orphanTweetsH h tweets = filter (\<lambda>a. \<not> truthy (conversationAt h a)) tweets"

definition notAReplyH :: "store \<Rightarrow> addr \<Rightarrow> bool" where
  "notAReplyH h a \<longleftrightarrow>
     isReply (o_props (load h a)) \<noteq> Some True \<or> \<not> truthy (replyTargetAt h a)"

definition isRootInH :: "store \<Rightarrow> addr list \<Rightarrow> addr \<Rightarrow> bool" where
  "isRootInH h conversationTweets a \<longleftrightarrow>
     notAReplyH h a \<or> replyTargetAt h a \<notin> set (map (idAt h) conversationTweets)"

definition repliesToH :: "store \<Rightarrow> string option \<Rightarrow> addr \<Rightarrow> bool" where
  "repliesToH h parentId t \<longleftrightarrow> replyTargetAt h t = parentId \<and> idAt h t \<noteq> parentId"

definition idsInStore :: "store \<Rightarrow> string option set" where
  "idsInStore h = insert None (set (map (\<lambda>ob. tweetId (o_props ob)) h))"

text \<open>
  \<^verbatim>\<open>attachChildren\<close> on the store: the state is the store and \<^verbatim>\<open>processedIds\<close>. The
  callback of \<^verbatim>\<open>children.map\<close> allocates the copy of a child, calls \<^verbatim>\<open>attachChildren\<close>
  on its address and returns the address; when the map is done, the array is stored in
  \<^verbatim>\<open>parentTweet.children\<close>.
\<close>

function attachChildrenH ::
    "(string \<rightharpoonup> addr) \<Rightarrow> addr list \<Rightarrow> store \<times> string option set \<Rightarrow> addr \<Rightarrow> store \<times> string option set"
  and attachEachH ::
    "(string \<rightharpoonup> addr) \<Rightarrow> addr list \<Rightarrow> store \<times> string option set \<Rightarrow> addr list
       \<Rightarrow> addr list \<times> store \<times> string option set"
where
  "attachChildrenH m conversationTweets (h, processedIds) parentTweet =
     (if idAt h parentTweet \<in> processedIds then (h, processedIds)
      else
        (case filter (repliesToH h (idAt h parentTweet)) conversationTweets of
           [] \<Rightarrow> (h, insert (idAt h parentTweet) processedIds)
         | child # rest \<Rightarrow>
             (case attachEachH m conversationTweets
                     (h, insert (idAt h parentTweet) processedIds) (child # rest) of
                (cs, h1, processedIds1) \<Rightarrow> (setChildren h1 parentTweet cs, processedIds1))))"
| "attachEachH m conversationTweets (h, processedIds) [] = ([], h, processedIds)"
| "attachEachH m conversationTweets (h, processedIds) (child # rest) =
     (case attachChildrenH m conversationTweets
             (h @ [newCopy h m (idAt h child)], processedIds) (length h) of
        (h1, processedIds1) \<Rightarrow>
          (case attachEachH m conversationTweets (h1, processedIds1) rest of
             (cs, h2, processedIds2) \<Rightarrow> (length h # cs, h2, processedIds2)))"
  by pat_completeness auto

text \<open>
  Termination as for the function on values; in addition the ids found in the store stay
  the same, since a copy takes its id from an object of the store and \<^verbatim>\<open>children\<close> is
  the only property written.
\<close>

termination
proof -
  have ld: "tweetId (o_props (load h a)) \<in> idsInStore h" for h a
    by (auto simp: load_def idsInStore_def emptyObj_def noFields_def)
  have cp: "tweetId (o_props (newCopy h m k)) \<in> idsInStore h" for h m k
    using ld by (auto simp: newCopy_def emptyObj_def noFields_def idsInStore_def split: option.splits)
  have ext: "idsInStore (h @ [newCopy h m k]) = idsInStore h" for h m k
    using cp [of h m k] by (auto simp: idsInStore_def)
  have upd: "idsInStore (setChildren h a cs) = idsInStore h" for h a cs
  proof -
    have "map (\<lambda>ob. tweetId (o_props ob)) (setChildren h a cs) = map (\<lambda>ob. tweetId (o_props ob)) h"
      by (auto simp: setChildren_def map_update list_update_same_conv)
    then show ?thesis by (simp add: idsInStore_def)
  qed
  have mono:
    "attachChildrenH_attachEachH_dom (Inl (m, conv, s, a)) \<Longrightarrow>
       idsInStore (fst (attachChildrenH m conv s a)) = idsInStore (fst s) \<and>
       snd s \<subseteq> snd (attachChildrenH m conv s a)"
    "attachChildrenH_attachEachH_dom (Inr (m, conv, s, ks)) \<Longrightarrow>
       idsInStore (fst (snd (attachEachH m conv s ks))) = idsInStore (fst s) \<and>
       snd s \<subseteq> snd (snd (attachEachH m conv s ks))"
    for m conv s a ks
  proof (induction m conv s a and m conv s ks rule: attachChildrenH_attachEachH.pinduct)
    case (1 m conv h P a)
    show ?case
    proof (cases "idAt h a \<in> P")
      case True
      then show ?thesis using "1.hyps" by (simp add: attachChildrenH.psimps)
    next
      case False
      show ?thesis
      proof (cases "filter (repliesToH h (idAt h a)) conv")
        case Nil
        then show ?thesis using False "1.hyps" by (auto simp: attachChildrenH.psimps)
      next
        case (Cons child rest)
        obtain cs h1 P1 where e: "attachEachH m conv (h, insert (idAt h a) P) (child # rest) = (cs, h1, P1)"
          by (metis prod_cases3)
        from "1.IH" [OF False Cons] e
        have "idsInStore h1 = idsInStore h" "insert (idAt h a) P \<subseteq> P1" by auto
        then show ?thesis using False Cons e "1.hyps" by (auto simp: attachChildrenH.psimps upd)
      qed
    qed
  next
    case (2 m conv h P)
    then show ?case by (simp add: attachEachH.psimps)
  next
    case (3 m conv h P child rest)
    obtain h1 P1 where a: "attachChildrenH m conv (h @ [newCopy h m (idAt h child)], P) (length h) = (h1, P1)"
      by fastforce
    obtain cs h2 P2 where b: "attachEachH m conv (h1, P1) rest = (cs, h2, P2)"
      by (metis prod_cases3)
    from "3.IH"(1) a have 1: "idsInStore h1 = idsInStore h" "P \<subseteq> P1" by (auto simp: ext)
    from "3.IH"(2) [OF a [symmetric]] b have 2: "idsInStore h2 = idsInStore h1" "P1 \<subseteq> P2" by auto
    show ?case using a b 1 2 "3.hyps" by (auto simp: attachEachH.psimps)
  qed
  have step: "card (U - insert i P) < card (U - P)"
    if "finite U" "i \<notin> P" "i \<in> U" for U P :: "string option set" and i
    by (rule psubset_card_mono) (use that in auto)
  show ?thesis
  proof (relation "inv_image (less_than <*lex*> less_than)
      (\<lambda>x. case x of
         Inl (m, conv, (h, P), a) \<Rightarrow> (card (idsInStore h - P), 0::nat)
       | Inr (m, conv, (h, P), ks) \<Rightarrow> (card (idsInStore h - P), Suc (length ks)))",
      goal_cases)
    case 1
    then show ?case by (intro wf_inv_image wf_lex_prod wf_less_than)
  next
    case (2 m conv h P a child rest)
    have "idAt h a \<in> idsInStore h" unfolding idAt_def by (rule ld)
    moreover have "finite (idsInStore h)" by (simp add: idsInStore_def)
    ultimately have "card (idsInStore h - insert (idAt h a) P) < card (idsInStore h - P)"
      using 2 by (intro step) auto
    then show ?case by simp
  next
    case (3 m conv h P child rest)
    then show ?case by (simp add: ext)
  next
    case (4 m conv h P child rest h1 P1)
    from mono(1) [OF 4(2)] 4(1) [symmetric]
    have "idsInStore h1 = idsInStore h \<and> P \<subseteq> P1" by (simp add: ext)
    then have "card (idsInStore h1 - P1) \<le> card (idsInStore h - P)"
      by (intro card_mono) (auto simp: idsInStore_def)
    then show ?case by auto
  qed
qed

text \<open>One conversation, the loop over the conversations, and the loop over the orphans.\<close>

definition processConversationH ::
  "(string \<rightharpoonup> addr) \<Rightarrow> store \<Rightarrow> addr list \<Rightarrow> addr list \<times> store" where
  "processConversationH m h conversationTweets =
     (case attachEachH m conversationTweets (h, {})
             (filter (isRootInH h conversationTweets) conversationTweets) of
        (roots, h1, processedIds) \<Rightarrow> (roots, h1))"

fun conversationsH ::
  "(string \<rightharpoonup> addr) \<Rightarrow> store \<Rightarrow> (string \<times> addr list) list \<Rightarrow> addr list \<times> store" where
  "conversationsH m h [] = ([], h)"
| "conversationsH m h ((c, conversationTweets) # groups) =
     (case processConversationH m h conversationTweets of
        (roots, h1) \<Rightarrow>
          (case conversationsH m h1 groups of
             (others, h2) \<Rightarrow> (roots @ others, h2)))"

definition placeOrphanH :: "(string \<rightharpoonup> addr) \<Rightarrow> addr list \<Rightarrow> store \<Rightarrow> addr \<Rightarrow> addr list \<times> store" where
  "placeOrphanH m tweets h a =
     (if notAReplyH h a then ([length h], h @ [newCopy h m (idAt h a)])
      else
        (case find (\<lambda>p. idAt h p = replyTargetAt h a) tweets of
           Some parentTweet \<Rightarrow>
             if truthy (conversationAt h parentTweet) then ([], h)
             else ([length h], h @ [newCopy h m (idAt h a)])
         | None \<Rightarrow> ([length h], h @ [newCopy h m (idAt h a)])))"

fun orphansH :: "(string \<rightharpoonup> addr) \<Rightarrow> addr list \<Rightarrow> store \<Rightarrow> addr list \<Rightarrow> addr list \<times> store" where
  "orphansH m tweets h [] = ([], h)"
| "orphansH m tweets h (a # rest) =
     (case placeOrphanH m tweets h a of
        (roots, h1) \<Rightarrow>
          (case orphansH m tweets h1 rest of
             (others, h2) \<Rightarrow> (roots @ others, h2)))"

text \<open>The builder on the store: the addresses of the roots and the store it leaves.\<close>

definition organizeTweetsIntoThreadsH :: "store \<Rightarrow> addr list \<Rightarrow> addr list \<times> store" where
  "organizeTweetsIntoThreadsH h tweets =
     (case buildMapH h tweets of
        (h1, tweetMap) \<Rightarrow>
          (case conversationsH tweetMap h1 (conversationMapH h1 tweets) of
             (roots, h2) \<Rightarrow>
               (case orphansH tweetMap tweets h2 (orphanTweetsH h1 tweets) of
                  (standalone, h3) \<Rightarrow> (roots @ standalone, h3))))"

section \<open>Ordering and composition (renderResults in App.tsx)\<close>

text \<open>
  \<^verbatim>\<open>new Date(s).getTime()\<close> is a number, or NaN when the string does not parse; which
  strings parse is left to the JavaScript engine for everything but the ISO format, so the
  parser is a parameter \<open>parseDate\<close>, with \<open>None\<close> for NaN. An absent \<^verbatim>\<open>createdAt\<close> gives
  NaN, and \<^verbatim>\<open>new Date(null).getTime()\<close> is \<open>0\<close>.
\<close>

definition dateTime :: "(string \<Rightarrow> int option) \<Rightarrow> string nullable option \<Rightarrow> int option" where
  "dateTime parseDate c =
     (case c of None \<Rightarrow> None | Some IsNull \<Rightarrow> Some 0 | Some (NotNull s) \<Rightarrow> parseDate s)"

definition timeOf :: "(string \<Rightarrow> int option) \<Rightarrow> tweet \<Rightarrow> int option" where
  "timeOf parseDate t = dateTime parseDate (createdAt (props t))"

text \<open>
  The comparator \<^verbatim>\<open>(a, b) => new Date(a.createdAt).getTime() - new Date(b.createdAt).getTime()\<close>.
  \<^verbatim>\<open>Array.prototype.sort\<close> treats a NaN result as \<open>0\<close>.
\<close>

definition compareByTime :: "(string \<Rightarrow> int option) \<Rightarrow> tweet \<Rightarrow> tweet \<Rightarrow> int" where
  "compareByTime parseDate a b =
     (case timeOf parseDate a of
        None \<Rightarrow> 0
      | Some x \<Rightarrow> (case timeOf parseDate b of None \<Rightarrow> 0 | Some y \<Rightarrow> x - y))"

text \<open>
  \<^verbatim>\<open>Array.prototype.sort\<close> is stable. For a comparator that orders the elements
  consistently the result is the one stable arrangement, which insertion from the right
  computes; for an inconsistent comparator (here: only when a date is NaN) the language
  leaves the order to the engine, and the function below is one admissible outcome.
\<close>

fun insertSorted :: "('a \<Rightarrow> 'a \<Rightarrow> int) \<Rightarrow> 'a \<Rightarrow> 'a list \<Rightarrow> 'a list" where
  "insertSorted cmp x [] = [x]"
| "insertSorted cmp x (y # ys) =
     (if cmp x y \<le> 0 then x # y # ys else y # insertSorted cmp x ys)"

definition sortWith :: "('a \<Rightarrow> 'a \<Rightarrow> int) \<Rightarrow> 'a list \<Rightarrow> 'a list" where
  "sortWith cmp xs = foldr (insertSorted cmp) xs []"

text \<open>
  The \<^verbatim>\<open>reduce\<close> that finds the oldest record of a group (no initial value: it starts from
  the first element; a comparison with NaN is false and keeps the accumulator).
\<close>

definition olderOf :: "(string \<Rightarrow> int option) \<Rightarrow> tweet \<Rightarrow> tweet \<Rightarrow> tweet" where
  "olderOf parseDate oldest t =
     (case timeOf parseDate t of
        None \<Rightarrow> oldest
      | Some tweetDate \<Rightarrow>
          (case timeOf parseDate oldest of
             None \<Rightarrow> oldest
           | Some oldestDate \<Rightarrow> if tweetDate < oldestDate then t else oldest))"

definition oldestTime :: "(string \<Rightarrow> int option) \<Rightarrow> tweet list \<Rightarrow> int option" where
  "oldestTime parseDate ts =
     (case ts of [] \<Rightarrow> None | t # rest \<Rightarrow> timeOf parseDate (foldl (olderOf parseDate) t rest))"

definition compareGroups ::
  "(string \<Rightarrow> int option) \<Rightarrow> string \<times> tweet list \<Rightarrow> string \<times> tweet list \<Rightarrow> int" where
  "compareGroups parseDate a b =
     (case oldestTime parseDate (snd a) of
        None \<Rightarrow> 0
      | Some x \<Rightarrow> (case oldestTime parseDate (snd b) of None \<Rightarrow> 0 | Some y \<Rightarrow> x - y))"

text \<open>
  What \<^verbatim>\<open>renderResults\<close> lays out: one block per conversation group, then one block with
  the standalone trees if there are any. The forest is shown only when the data is an array
  whose first element has a string id and a string text; an empty array shows a notice,
  anything else the JSON text.
\<close>

datatype block = ConversationBlock string "tweet list" | StandaloneBlock "tweet list"

datatype view = NoResults | Threads "block list" | JsonView

definition composeForest :: "(string \<Rightarrow> int option) \<Rightarrow> tweet list \<Rightarrow> block list" where
  "composeForest parseDate tweets =
     (let sortedConversations = sortWith (compareGroups parseDate) (conversationMapOf tweets);
          sortedStandaloneTweets = sortWith (compareByTime parseDate) (orphanTweetsOf tweets)
      in map (\<lambda>(conversationId, conversationTweets).
                ConversationBlock conversationId
                  (sortWith (compareByTime parseDate)
                     (organizeTweetsIntoThreads
                        (sortWith (compareByTime parseDate) conversationTweets))))
             sortedConversations
         @ (if sortedStandaloneTweets \<noteq> []
            then [StandaloneBlock
                    (sortWith (compareByTime parseDate)
                       (organizeTweetsIntoThreads sortedStandaloneTweets))]
            else []))"

definition renderResults :: "(string \<Rightarrow> int option) \<Rightarrow> tweet list \<Rightarrow> view" where
  "renderResults parseDate responseData =
     (case responseData of
        [] \<Rightarrow> NoResults
      | first # _ \<Rightarrow>
          if tweetId (props first) \<noteq> None \<and> tweetText (props first) \<noteq> None
          then Threads (composeForest parseDate responseData)
          else JsonView)"

text \<open>The whole engine: the fetched response to what is shown.\<close>

definition pipeline :: "(string \<Rightarrow> int option) \<Rightarrow> api_response \<Rightarrow> js_error + view" where
  "pipeline parseDate resp =
     (case fetchUserTweets resp of
        Inl e \<Rightarrow> Inl e
      | Inr tweets \<Rightarrow> Inr (renderResults parseDate tweets))"

section \<open>Notions used in the statements\<close>

text \<open>The ids of a list of canonical records, and the id of a batch element.\<close>

definition idsOf :: "tweet list \<Rightarrow> string option list" where
  "idsOf ts = map (\<lambda>t. tweetId (props t)) ts"

definition rawIdOf :: "raw option \<Rightarrow> string option" where
  "rawIdOf tw = optObj tw (\<lambda>t. raw_id (flat t))"

definition mergedIds :: "api_response \<Rightarrow> js_error + string option list" where
  "mergedIds resp = (case fetchUserTweets resp of Inl e \<Rightarrow> Inl e | Inr ts \<Rightarrow> Inr (idsOf ts))"

text \<open>\<^verbatim>\<open>Array.isArray\<close>, as a notion of the statements (the service never calls it).\<close>

definition isArray :: "'a jsval \<Rightarrow> bool" where
  "isArray v = (case v of JArray xs \<Rightarrow> True | _ \<Rightarrow> False)"

text \<open>
  A snapshot of depth one: no \<^verbatim>\<open>repliedTo\<close>, no \<^verbatim>\<open>children\<close>, none of the reply-linkage
  properties.
\<close>

definition cleanSnapshot :: "tweet \<Rightarrow> bool" where
  "cleanSnapshot s \<longleftrightarrow>
     repliedTo s = None \<and> children s = None \<and>
     isReply (props s) = None \<and> inReplyToId (props s) = None \<and>
     inReplyToStatusId (props s) = None \<and> inReplyToTweetId (props s) = None \<and>
     referencedTweets (props s) = None \<and> conversationId (props s) = None \<and>
     inReplyToUserId (props s) = None \<and> inReplyToUsername (props s) = None"

text \<open>
  The keys of the conversation groups in the order of their first occurrence, and the
  members of one group.
\<close>

fun distinctFirst :: "'a list \<Rightarrow> 'a list" where
  "distinctFirst [] = []"
| "distinctFirst (x # xs) = x # filter (\<lambda>y. y \<noteq> x) (distinctFirst xs)"

definition keyOf :: "tweet \<Rightarrow> string option" where
  "keyOf t = (if truthy (conversationId (props t)) then conversationId (props t) else None)"

definition conversationKeys :: "tweet list \<Rightarrow> string list" where
  "conversationKeys ts = distinctFirst (List.map_filter keyOf ts)"

definition membersOf :: "string \<Rightarrow> tweet list \<Rightarrow> tweet list" where
  "membersOf c ts = filter (\<lambda>t. conversationId (props t) = Some c) ts"

text \<open>All nodes of a tree: the node itself and, through \<^verbatim>\<open>children\<close>, its descendants.\<close>

fun nodesOf :: "tweet \<Rightarrow> tweet list" where
  "nodesOf (Tweet p r c) =
     Tweet p r c # (case c of None \<Rightarrow> [] | Some cs \<Rightarrow> concat (map nodesOf cs))"

text \<open>The trees of a block, and all nodes of all trees of a list of blocks.\<close>

fun blockTrees :: "block \<Rightarrow> tweet list" where
  "blockTrees (ConversationBlock c trees) = trees"
| "blockTrees (StandaloneBlock trees) = trees"

definition forestNodes :: "block list \<Rightarrow> tweet list" where
  "forestNodes blocks = concat (map nodesOf (concat (map blockTrees blocks)))"

text \<open>The shape of a tree: the ids of its nodes. The shape of what is shown: per block its key (none for the standalone block) and the shapes of its trees.\<close>

datatype shape = Node "string option" "shape list"

fun shapeOf :: "tweet \<Rightarrow> shape" where
  "shapeOf (Tweet p r c) = Node (tweetId p) (case c of None \<Rightarrow> [] | Some cs \<Rightarrow> map shapeOf cs)"

fun blockShape :: "block \<Rightarrow> string option \<times> shape list" where
  "blockShape (ConversationBlock c trees) = (Some c, map shapeOf trees)"
| "blockShape (StandaloneBlock trees) = (None, map shapeOf trees)"


text \<open>
  The children of a node, the ids of all nodes of a tree, and the ids of the nodes that
  carry children (the nodes on which \<^verbatim>\<open>attachChildren\<close> got past its test and found
  replies).
\<close>

definition childrenOf :: "tweet \<Rightarrow> tweet list" where
  "childrenOf t = (case children t of None \<Rightarrow> [] | Some cs \<Rightarrow> cs)"

definition nodeIds :: "tweet \<Rightarrow> string option list" where
  "nodeIds t = map (\<lambda>n. tweetId (props n)) (nodesOf t)"

definition expandedIds :: "tweet \<Rightarrow> string option list" where
  "expandedIds t = map (\<lambda>n. tweetId (props n)) (filter (\<lambda>n. childrenOf n \<noteq> []) (nodesOf t))"

text \<open>
  Well-formed input of the thread builder: the ids are truthy and pairwise distinct, and
  every record that carries a reply-target id is flagged as a reply.
\<close>

definition wellFormedIds :: "tweet list \<Rightarrow> bool" where
  "wellFormedIds tweets \<longleftrightarrow> distinct (idsOf tweets) \<and> list_all (\<lambda>t. truthy (tweetId (props t))) tweets"

definition repliesFlagged :: "tweet list \<Rightarrow> bool" where
  "repliesFlagged tweets \<longleftrightarrow>
     list_all (\<lambda>t. \<not> truthy (inReplyToId (props t)) \<or> isReply (props t) = Some True) tweets"

text \<open>
  Invariants of one run of the builder over a conversation, used in the proofs. The set of
  processed ids is closed under parents (a processed record that is not a root has a
  processed reply target); a record may be attached when it is a copy of a record of the
  conversation, its id is not processed, and it is a root or its reply target is processed;
  a tree is linked when the reply target of every node below the root is the id of a node of
  the tree.
\<close>

definition closedUnderParents :: "tweet list \<Rightarrow> string option set \<Rightarrow> bool" where
  "closedUnderParents conv P \<longleftrightarrow>
     (\<forall>c\<in>set conv. tweetId (props c) \<in> P \<longrightarrow> isRootIn conv c \<or> inReplyToId (props c) \<in> P)"

definition attachable :: "tweet list \<Rightarrow> string option set \<Rightarrow> tweet \<Rightarrow> bool" where
  "attachable conv P t \<longleftrightarrow>
     (\<exists>c\<in>set conv. props c = props t) \<and> tweetId (props t) \<notin> P \<and>
     (isRootIn conv t \<or> inReplyToId (props t) \<in> P)"

definition linked :: "tweet \<Rightarrow> bool" where
  "linked T \<longleftrightarrow>
     (\<forall>n\<in>set (concat (map nodesOf (childrenOf T))). inReplyToId (props n) \<in> set (nodeIds T))"

definition copiesOf :: "tweet list \<Rightarrow> tweet \<Rightarrow> bool" where
  "copiesOf conv T \<longleftrightarrow> (\<forall>n\<in>set (nodesOf T). \<exists>c\<in>set conv. props n = props c)"

definition builtFrom ::
  "tweet list \<Rightarrow> string option set \<Rightarrow> tweet list \<Rightarrow> tweet list \<Rightarrow> string option set \<Rightarrow> bool" where
  "builtFrom conv P ks Ts P' \<longleftrightarrow>
     P' = P \<union> set (concat (map nodeIds Ts)) \<and>
     distinct (concat (map nodeIds Ts)) \<and>
     set (concat (map nodeIds Ts)) \<inter> P = {} \<and>
     closedUnderParents conv P' \<and>
     map props Ts = map props ks \<and>
     (\<forall>T\<in>set Ts. linked T \<and> copiesOf conv T)"

text \<open>
  Notions of the ordering claim. The time stamp of a record (of its properties), with \<open>0\<close>
  standing in for a date that does not parse; all dates parse; the earliest stamp of a
  group. A list is the stable ascending arrangement of another when it is ascending in the
  key and, for every value of the key, holds the elements with that value in the order of
  the other list.
\<close>

definition stampOf :: "(string \<Rightarrow> int option) \<Rightarrow> tweet_fields \<Rightarrow> int" where
  "stampOf parseDate p =
     (case dateTime parseDate (createdAt p) of None \<Rightarrow> 0 | Some x \<Rightarrow> x)"

definition stamp :: "(string \<Rightarrow> int option) \<Rightarrow> tweet \<Rightarrow> int" where
  "stamp parseDate t = stampOf parseDate (props t)"

definition validDates :: "(string \<Rightarrow> int option) \<Rightarrow> tweet list \<Rightarrow> bool" where
  "validDates parseDate tweets \<longleftrightarrow> list_all (\<lambda>t. timeOf parseDate t \<noteq> None) tweets"

definition earliestStamp :: "(string \<Rightarrow> int option) \<Rightarrow> tweet list \<Rightarrow> int" where
  "earliestStamp parseDate ts = Min (set (map (stamp parseDate) ts))"

definition stableSorted :: "('a \<Rightarrow> int) \<Rightarrow> 'a list \<Rightarrow> 'a list \<Rightarrow> bool" where
  "stableSorted key input output \<longleftrightarrow>
     sorted (map key output) \<and>
     (\<forall>v. filter (\<lambda>x. key x = v) output = filter (\<lambda>x. key x = v) input)"

text \<open>
  The children of a node are none, or copies of the records of the conversation that reply
  to it, in the order of the conversation.
\<close>

definition childrenFrom :: "tweet list \<Rightarrow> tweet \<Rightarrow> bool" where
  "childrenFrom conv n \<longleftrightarrow>
     childrenOf n = [] \<or> map props (childrenOf n) = map props (filter (repliesTo n) conv)"

text \<open>The stamps of the children of every node of what is shown.\<close>

definition childStamps :: "(string \<Rightarrow> int option) \<Rightarrow> js_error + view \<Rightarrow> int option list list" where
  "childStamps parseDate out =
     (case out of
        Inr (Threads blocks) \<Rightarrow>
          map (\<lambda>n. map (timeOf parseDate) (childrenOf n)) (forestNodes blocks)
      | _ \<Rightarrow> [])"

text \<open>
  Notions for the store. The nodes of the returned forest are the addresses reached from the
  roots through \<^verbatim>\<open>children\<close>. A store keeps its nodes apart from the first \<open>n\<close> objects when
  every \<^verbatim>\<open>children\<close> array of an object at address \<open>n\<close> or above holds addresses at \<open>n\<close> or
  above only; it grows from another store when it is at least as long, has the same first
  \<open>n\<close> objects, and keeps its nodes apart from them.
\<close>

inductive_set forestAddrs :: "store \<Rightarrow> addr list \<Rightarrow> addr set"
  for h :: store and roots :: "addr list"
where
  root: "a \<in> set roots \<Longrightarrow> a \<in> forestAddrs h roots"
| child: "a \<in> forestAddrs h roots \<Longrightarrow> o_children (load h a) = Some cs \<Longrightarrow> c \<in> set cs
            \<Longrightarrow> c \<in> forestAddrs h roots"

definition freshNodes :: "nat \<Rightarrow> store \<Rightarrow> bool" where
  "freshNodes n h \<longleftrightarrow>
     (\<forall>a cs. n \<le> a \<and> a < length h \<and> o_children (h ! a) = Some cs
        \<longrightarrow> (\<forall>c\<in>set cs. n \<le> c \<and> c < length h))"

definition grows :: "nat \<Rightarrow> store \<Rightarrow> store \<Rightarrow> bool" where
  "grows n h h' \<longleftrightarrow> length h \<le> length h' \<and> take n h' = take n h \<and> freshNodes n h'"

text \<open>
  The tree of values found at an address, down to a given depth (the \<^verbatim>\<open>repliedTo\<close>
  reference is left out).
\<close>

fun readBack :: "nat \<Rightarrow> store \<Rightarrow> addr \<Rightarrow> tweet" where
  "readBack 0 h a = Tweet (o_props (load h a)) None None"
| "readBack (Suc n) h a =
     Tweet (o_props (load h a)) None (map_option (map (readBack n h)) (o_children (load h a)))"

section \<open>Concrete records for examples\<close>

text \<open>A raw record and a canonical record with every property absent.\<close>

definition noRawFields :: raw_fields where
  "noRawFields = \<lparr> raw_id = None, raw_text = None, raw_full_text = None, raw_createdAt = None,
     raw_created_at = None, raw_url = None, raw_author = None, raw_user = None,
     raw_likeCount = None, raw_like_count = None, raw_retweetCount = None,
     raw_retweet_count = None, raw_replyCount = None, raw_reply_count = None,
     raw_quoteCount = None, raw_quote_count = None, raw_viewCount = None,
     raw_view_count = None, raw_public_metrics = None, raw_entities = None, raw_card = None,
     raw_Card = None, raw_in_reply_to_status_id = None, raw_in_reply_to_tweet_id = None,
     raw_inReplyToStatusId = None, raw_inReplyToTweetId = None, raw_reply_to_status_id = None,
     raw_reply_to_tweet_id = None, raw_inReplyToId = None, raw_isReply = None,
     raw_conversationId = None, raw_inReplyToUserId = None, raw_inReplyToUsername = None,
     raw_displayTextRange = None \<rparr>"

text \<open>A raw post with an id, a text and a creation date, and nothing else.\<close>

definition rawPost :: "string \<Rightarrow> string \<Rightarrow> raw_fields" where
  "rawPost i date = noRawFields \<lparr> raw_id := Some i, raw_text := Some ''hello'', raw_createdAt := Some (NotNull date) \<rparr>"

text \<open>A canonical post: id, date, conversation id, reply target.\<close>

definition post :: "string \<Rightarrow> string \<Rightarrow> string option \<Rightarrow> string option \<Rightarrow> tweet" where
  "post i date conv target =
     Tweet (noFields \<lparr> tweetId := Some i, tweetText := Some ''hello'', createdAt := Some (NotNull date),
                       isReply := Some (target \<noteq> None), inReplyToId := target,
                       conversationId := conv \<rparr>) None None"

text \<open>
  The ISO dates used in the examples, with the time value that \<^verbatim>\<open>Date\<close> gives them
  (milliseconds since the epoch).
\<close>

definition isoDates :: "string \<Rightarrow> int option" where
  "isoDates = map_of
     [(''2024-01-01T00:00:00.000Z'', 1704067200000),
      (''2024-01-02T00:00:00.000Z'', 1704153600000),
      (''2024-01-03T00:00:00.000Z'', 1704240000000),
      (''2024-01-04T00:00:00.000Z'', 1704326400000)]"

definition day1 :: string where "day1 = ''2024-01-01T00:00:00.000Z''"
definition day2 :: string where "day2 = ''2024-01-02T00:00:00.000Z''"
definition day3 :: string where "day3 = ''2024-01-03T00:00:00.000Z''"
definition day4 :: string where "day4 = ''2024-01-04T00:00:00.000Z''"

text \<open>A response that carries the three batches at \<^verbatim>\<open>data.tweets\<close>, \<^verbatim>\<open>data.includes.tweets\<close> and \<^verbatim>\<open>data.replied_to_tweets\<close>.\<close>

definition response :: "batch \<Rightarrow> batch \<Rightarrow> batch \<Rightarrow> api_response" where
  "response primary included repliedToBatch =
     \<lparr> resp_data = Some \<lparr> data_tweets = primary,
                          data_includes = Some \<lparr> includes_tweets = included \<rparr>,
                          data_replied_to_tweets = repliedToBatch,
                          data_repliedToTweets = JUndefined \<rparr>,
       resp_includes = None,
       resp_replied_to_tweets = JUndefined \<rparr>"


definition post9 :: raw where
  "post9 = Raw (rawPost ''9'' day1) None None None None"

definition post4 :: raw where
  "post4 = Raw (rawPost ''4'' day2) None None None None"


text \<open>
  The scenario of reply resolution by reference list: post 5 cites post 4 as its reply
  target in \<^verbatim>\<open>referenced_tweets\<close> and embeds nothing.
\<close>

definition post5 :: raw where
  "post5 = Raw (rawPost ''5'' day3) None None
             (Some [Ref (Some ''replied_to'') None (Some ''4'') None]) None"

text \<open>
  The same post delivered with \<^verbatim>\<open>full_text\<close> in place of \<^verbatim>\<open>text\<close>; and a record 4 that
  has a like count, reply linkage of its own and an embedded reply target.
\<close>

definition fullTextPost5 :: raw where
  "fullTextPost5 = Raw ((rawPost ''5'' day3) \<lparr> raw_text := None, raw_full_text := Some ''hello'' \<rparr>) None None
                     (Some [Ref (Some ''replied_to'') None (Some ''4'') None]) None"

definition linkedPost4 :: raw where
  "linkedPost4 = Raw ((rawPost ''4'' day2)
                        \<lparr> raw_like_count := Some 3, raw_isReply := Some (NotNull True),
                          raw_inReplyToId := Some ''3'', raw_conversationId := Some ''c'' \<rparr>)
                   (Some (Raw (rawPost ''3'' day1) None None None None)) None None None"

text \<open>
  A primary post 7 that embeds its reply target 6 inline; the embedded record carries reply
  linkage of its own and embeds a further record.
\<close>

definition reply6 :: raw where
  "reply6 = Raw ((rawPost ''6'' day2)
                   \<lparr> raw_in_reply_to_status_id := Some ''9'', raw_inReplyToId := Some ''9'',
                     raw_isReply := Some (NotNull True), raw_conversationId := Some ''c'',
                     raw_inReplyToUserId := Some ''u'', raw_inReplyToUsername := Some ''n'' \<rparr>)
              (Some post9) None
              (Some [Ref (Some ''replied_to'') None (Some ''9'') (Some post9)]) None"

definition reply7 :: raw where
  "reply7 = Raw ((rawPost ''7'' day3) \<lparr> raw_isReply := Some (NotNull True), raw_inReplyToId := Some ''6'' \<rparr>)
              (Some reply6) None None None"

definition nestedResponse :: api_response where
  "nestedResponse = response (JArray [Some reply7]) (JArray []) (JArray [])"



text \<open>
  A record that names a reply target and is not flagged as a reply (the source sent
  \<^verbatim>\<open>isReply: false\<close> together with a reply-target id).
\<close>

definition unflaggedPost :: "string \<Rightarrow> string \<Rightarrow> string option \<Rightarrow> string option \<Rightarrow> tweet" where
  "unflaggedPost i date conv target =
     Tweet (noFields \<lparr> tweetId := Some i, tweetText := Some ''hello'', createdAt := Some (NotNull date),
                       isReply := Some False, inReplyToId := target,
                       conversationId := conv \<rparr>) None None"

text \<open>A conversation of four records: 2 and 4 reply to 1, and 3 replies to 2.\<close>

definition threadOfFour :: "tweet list" where
  "threadOfFour =
     [post ''1'' day1 (Some ''c'') None, post ''2'' day2 (Some ''c'') (Some ''1''),
      post ''3'' day3 (Some ''c'') (Some ''2''), post ''4'' day4 (Some ''c'') (Some ''1'')]"

text \<open>
  The conversation of four records, given out of date order, a second conversation that
  starts as early as the first, and two standalone records.
\<close>

definition mixedBatch :: "tweet list" where
  "mixedBatch =
     [post ''9'' day2 None None,
      post ''4'' day4 (Some ''c'') (Some ''1''), post ''2'' day2 (Some ''c'') (Some ''1''),
      post ''7'' day1 (Some ''d'') None,
      post ''3'' day3 (Some ''c'') (Some ''2''), post ''1'' day1 (Some ''c'') None,
      post ''8'' day1 None None]"

text \<open>
  A response in which the included batch and the replied-to batch both hold a record with
  id x, in conversation c and replying to the primary post r.
\<close>

definition replyTo :: "string \<Rightarrow> string \<Rightarrow> string \<Rightarrow> raw" where
  "replyTo i date target =
     Raw ((rawPost i date) \<lparr> raw_isReply := Some (NotNull True), raw_inReplyToId := Some target,
                               raw_conversationId := Some ''c'' \<rparr>) None None None None"

definition duplicateResponse :: api_response where
  "duplicateResponse =
     response
       (JArray [Some (Raw ((rawPost ''r'' day1) \<lparr> raw_conversationId := Some ''c'' \<rparr>) None None None None),
                Some (replyTo ''y'' day3 ''r'')])
       (JArray [Some (replyTo ''x'' day2 ''r'')])
       (JArray [Some (replyTo ''x'' day4 ''r'')])"

text \<open>
  The conversation of four records as objects of a store, at the addresses 0 to 3, none with
  a \<^verbatim>\<open>children\<close> property; and a conversation of two records that reply to each other,
  the first not flagged as a reply.
\<close>

definition objectOf :: "tweet \<Rightarrow> obj" where
  "objectOf t = \<lparr> o_props = props t, o_repliedTo = None, o_children = None \<rparr>"

definition threadStore :: store where
  "threadStore = map objectOf threadOfFour"

definition replyCycle :: "tweet list" where
  "replyCycle =
     [unflaggedPost ''A'' day1 (Some ''c'') (Some ''B''), post ''B'' day2 (Some ''c'') (Some ''A'')]"
section \<open>Properties\<close>

subsection \<open>Snapshots and the provenance merge\<close>

lemma createClean_clean:
  "createCleanRepliedToTweet (Some r) = Some s \<Longrightarrow> cleanSnapshot s"
  by (auto simp: createCleanRepliedToTweet_def cleanSnapshot_def noFields_def Let_def)

lemma createClean_Some: "\<exists>s. createCleanRepliedToTweet (Some r) = Some s"
  by (simp add: createCleanRepliedToTweet_def Let_def)

lemma createClean_None: "createCleanRepliedToTweet None = None"
  by (simp add: createCleanRepliedToTweet_def)

lemma createClean_opt: "createCleanRepliedToTweet x = Some s \<Longrightarrow> cleanSnapshot s"
  by (cases x) (auto simp: createClean_None dest: createClean_clean)

lemma resolveEmbedded_clean: "resolveEmbedded m t = Some s \<Longrightarrow> cleanSnapshot s"
  by (auto simp: resolveEmbedded_def split: option.splits if_splits dest: createClean_opt)

lemma resolveById_clean:
  "resolveById m raws k found = Some s \<Longrightarrow> (\<And>x. found = Some x \<Longrightarrow> cleanSnapshot x) \<Longrightarrow> cleanSnapshot s"
  by (auto simp: resolveById_def split: option.splits if_splits dest: createClean_opt)

lemma processMain_clean: "repliedTo (processMainTweet m raws t) = Some s \<Longrightarrow> cleanSnapshot s"
  by (auto simp: processMainTweet_def Let_def dest: resolveById_clean resolveEmbedded_clean)




lemma processRawTweet_Some_iff:
  "processRawTweet tw = Some p \<Longrightarrow> truthy (rawIdOf tw) \<and> tweetId (props p) = rawIdOf tw \<and> repliedTo p = None \<and> children p = None"
  by (auto simp: processRawTweet_def rawIdOf_def optObj_def Let_def split: option.splits if_splits)

lemma processRawTweet_None_iff: "processRawTweet tw = None \<longleftrightarrow> \<not> truthy (rawIdOf tw)"
  by (auto simp: processRawTweet_def rawIdOf_def optObj_def Let_def truthy_def split: option.splits)

lemma mutateFirst_map: "(\<And>x. g (f x) = g x) \<Longrightarrow> map g (mutateFirst P f xs) = map g xs"
  by (induction xs) auto

lemma setConversationId_sel [simp]:
  "tweetId (props (setConversationId c t)) = tweetId (props t)"
  "repliedTo (setConversationId c t) = repliedTo t"
  "children (setConversationId c t) = children t"
  "source (props (setConversationId c t)) = source (props t)"
  "conversationId (props (setConversationId c t)) = c"
  "tweetText (props (setConversationId c t)) = tweetText (props t)"
  by (simp_all add: setConversationId_def)

lemma setSource_sel [simp]:
  "tweetId (props (setSource s t)) = tweetId (props t)"
  "repliedTo (setSource s t) = repliedTo t"
  "children (setSource s t) = children t"
  "source (props (setSource s t)) = Some s"
  by (simp_all add: setSource_def)

lemma adoptConversation_ids:
  "adoptConversation R ms p = (ms', p') \<Longrightarrow>
     idsOf ms' = idsOf ms \<and> tweetId (props p') = tweetId (props p) \<and>
     map repliedTo ms' = map repliedTo ms \<and> repliedTo p' = repliedTo p \<and>
     source (props p') = source (props p)"
  by (auto simp: adoptConversation_def idsOf_def mutateFirst_map split: option.splits if_splits)

lemma mapSupplementary_ids:
  "mapSupplementary src R ms batch = (ms', ps) \<Longrightarrow>
     idsOf ms' = idsOf ms \<and> map repliedTo ms' = map repliedTo ms \<and>
     idsOf ps = filter truthy (map rawIdOf batch) \<and>
     (\<forall>p\<in>set ps. repliedTo p = None \<and> source (props p) = Some src)"
proof (induction batch arbitrary: ms ms' ps)
  case Nil
  then show ?case by (simp add: idsOf_def)
next
  case (Cons tw rest)
  show ?case
  proof (cases "processRawTweet tw")
    case None
    with Cons.prems have r: "mapSupplementary src R ms rest = (ms', ps)" by simp
    from None have "\<not> truthy (rawIdOf tw)" by (simp add: processRawTweet_None_iff)
    with Cons.IH [OF r] show ?thesis by simp
  next
    case (Some p)
    obtain m1 p1 where a: "adoptConversation (R (optObj tw (\<lambda>t. raw_id (flat t)))) ms (setSource src p) = (m1, p1)"
      by fastforce
    obtain m2 others where r: "mapSupplementary src R m1 rest = (m2, others)"
      by fastforce
    from Cons.prems Some a r have eq: "ms' = m2" "ps = p1 # others" by auto
    from adoptConversation_ids [OF a] processRawTweet_Some_iff [OF Some] Cons.IH [OF r]
    show ?thesis unfolding eq by (auto simp: idsOf_def)
  qed
qed

lemma processSupplementary_ids:
  assumes "processSupplementary src R ms batch = (ms', ps)"
  shows "idsOf ms' = idsOf ms" "map repliedTo ms' = map repliedTo ms"
    "idsOf ps = filter (\<lambda>i. truthy i \<and> i \<notin> set (idsOf ms)) (map rawIdOf batch)"
    "\<forall>p\<in>set ps. repliedTo p = None \<and> source (props p) = Some src"
proof -
  let ?b = "filter (isValid (set (idsOf ms))) batch"
  have m: "mapSupplementary src R ms ?b = (ms', ps)"
    using assms by (simp add: processSupplementary_def idsOf_def)
  have v: "isValid S tw \<longleftrightarrow> truthy (rawIdOf tw) \<and> rawIdOf tw \<notin> S" for S tw
    by (auto simp: isValid_def rawIdOf_def optObj_def truthy_def split: option.splits)
  have "filter truthy (map rawIdOf ?b) = filter (\<lambda>i. truthy i \<and> i \<notin> set (idsOf ms)) (map rawIdOf batch)"
    by (induction batch) (auto simp: v)
  with mapSupplementary_ids [OF m] show "idsOf ms' = idsOf ms" "map repliedTo ms' = map repliedTo ms"
    "idsOf ps = filter (\<lambda>i. truthy i \<and> i \<notin> set (idsOf ms)) (map rawIdOf batch)"
    "\<forall>p\<in>set ps. repliedTo p = None \<and> source (props p) = Some src"
    by auto
qed


lemma those_Some_map: "those xs = Some ys \<Longrightarrow> xs = map Some ys"
  by (induction xs arbitrary: ys) (auto split: option.splits)

lemma processMain_id: "tweetId (props (processMainTweet m raws t)) = raw_id (flat t)"
  by (simp add: processMainTweet_def Let_def)

lemma mergeBatches_ids:
  assumes "mergeBatches rawTweets includesTweets repliedToTweets = Inr (mainT, incT, repT)"
  shows "idsOf mainT = map rawIdOf rawTweets"
    and "idsOf incT = filter (\<lambda>i. truthy i \<and> i \<notin> set (idsOf mainT)) (map rawIdOf includesTweets)"
    and "idsOf repT = filter (\<lambda>i. truthy i \<and> i \<notin> set (idsOf mainT)) (map rawIdOf repliedToTweets)"
proof -
  from assms obtain raws where raws: "those rawTweets = Some raws"
    by (auto simp: mergeBatches_def split: option.splits)
  define m0 where "m0 = map (processMainTweet (buildTweetMap rawTweets includesTweets repliedToTweets) raws) raws"
  obtain m1 i1 where p1: "processSupplementary SrcIncludes referencesIncluded m0 includesTweets = (m1, i1)"
    by fastforce
  obtain m2 r2 where p2: "processSupplementary SrcRepliedTo matchesReplyId m1 repliedToTweets = (m2, r2)"
    by fastforce
  from assms raws p1 p2 have eq: "mainT = m2" "incT = i1" "repT = r2"
    by (auto simp: mergeBatches_def Let_def m0_def)
  have ids0: "idsOf m0 = map rawIdOf rawTweets"
    using those_Some_map [OF raws]
    by (simp add: m0_def idsOf_def rawIdOf_def optObj_def processMain_id comp_def)
  from processSupplementary_ids(1,3) [OF p1] processSupplementary_ids(1,3) [OF p2] ids0
  show "idsOf mainT = map rawIdOf rawTweets"
    and "idsOf incT = filter (\<lambda>i. truthy i \<and> i \<notin> set (idsOf mainT)) (map rawIdOf includesTweets)"
    and "idsOf repT = filter (\<lambda>i. truthy i \<and> i \<notin> set (idsOf mainT)) (map rawIdOf repliedToTweets)"
    unfolding eq by simp_all
qed

text \<open>
  Claim C1 (as amended). In the merged set no id of the primary list occurs in the filtered
  included list or in the filtered replied-to list, and the ids of the merged set are those
  of the raw batches in input order, a supplementary record being kept iff its id is truthy
  and not an id of the primary batch. Nothing removes a second occurrence of an id inside a
  batch, or an id shared by the included and the replied-to batch: the ids of the merged
  set are pairwise distinct whenever the ids of the raw primary batch are and no truthy id
  occurs twice across the raw included and replied-to batches.
\<close>

theorem merged_ids_primary_wins:
  assumes "mergeBatches rawTweets includesTweets repliedToTweets = Inr (mainT, incT, repT)"
  shows "idsOf (mainT @ incT @ repT) =
           map rawIdOf rawTweets
           @ filter (\<lambda>i. truthy i \<and> i \<notin> set (map rawIdOf rawTweets)) (map rawIdOf includesTweets)
           @ filter (\<lambda>i. truthy i \<and> i \<notin> set (map rawIdOf rawTweets)) (map rawIdOf repliedToTweets)
         \<and> set (idsOf incT) \<inter> set (idsOf mainT) = {}
         \<and> set (idsOf repT) \<inter> set (idsOf mainT) = {}
         \<and> (distinct (map rawIdOf rawTweets) \<and>
              distinct (filter truthy (map rawIdOf (includesTweets @ repliedToTweets)))
            \<longrightarrow> distinct (idsOf (mainT @ incT @ repT)))"
proof -
  note ids = mergeBatches_ids [OF assms]
  have app: "idsOf (mainT @ incT @ repT) = idsOf mainT @ idsOf incT @ idsOf repT"
    by (simp add: idsOf_def)
  have d: "distinct (filter truthy (xs @ ys)) \<Longrightarrow>
      distinct (filter (\<lambda>i. truthy i \<and> i \<notin> S) xs @ filter (\<lambda>i. truthy i \<and> i \<notin> S) ys)"
    for xs ys :: "string option list" and S
  proof -
    assume a: "distinct (filter truthy (xs @ ys))"
    have "filter (\<lambda>i. truthy i \<and> i \<notin> S) xs @ filter (\<lambda>i. truthy i \<and> i \<notin> S) ys
        = filter (\<lambda>i. i \<notin> S) (filter truthy (xs @ ys))"
      by (simp add: conj_commute)
    with a show ?thesis by (simp only: distinct_filter)
  qed
  show ?thesis
    unfolding app ids(2,3) unfolding ids(1)
    using d [of "map rawIdOf includesTweets" "map rawIdOf repliedToTweets" "set (map rawIdOf rawTweets)"]
    by auto
qed



theorem merged_ids_primary_wins_witness:
  "\<not> isl (mergeBatches [Some post9] [Some post9, Some post4] []) \<and>
   idsOf (fst (projr (mergeBatches [Some post9] [Some post9, Some post4] []))
          @ fst (snd (projr (mergeBatches [Some post9] [Some post9, Some post4] [])))
          @ snd (snd (projr (mergeBatches [Some post9] [Some post9, Some post4] []))))
     = [Some ''9'', Some ''4'']"
proof -
  let ?m = "mergeBatches [Some post9] [Some post9, Some post4] []"
  have n: "\<not> isl ?m" by code_simp
  then have e: "?m = Inr (fst (projr ?m), fst (snd (projr ?m)), snd (snd (projr ?m)))"
    by (cases ?m) auto
  have ids: "map rawIdOf [Some post9] = [Some ''9'']"
    "map rawIdOf [Some post9, Some post4] = [Some ''9'', Some ''4'']"
    "map rawIdOf [] = []"
    by code_simp+
  from merged_ids_primary_wins [OF e] have
    "idsOf (fst (projr ?m) @ fst (snd (projr ?m)) @ snd (snd (projr ?m)))
       = map rawIdOf [Some post9]
         @ filter (\<lambda>i. truthy i \<and> i \<notin> set (map rawIdOf [Some post9])) (map rawIdOf [Some post9, Some post4])
         @ filter (\<lambda>i. truthy i \<and> i \<notin> set (map rawIdOf [Some post9])) (map rawIdOf [])"
    by blast
  then show ?thesis using n unfolding ids by (simp add: truthy_def)
qed

text \<open>
  Claim C1 as stated fails: a record with id 9 in the included batch and a record with id 9
  in the replied-to batch are both kept.
\<close>

theorem duplicate_id_counterexample:
  "mergedIds (response (JArray []) (JArray [Some post9]) (JArray [Some post9])) = Inr [Some ''9'', Some ''9'']"
  by code_simp


lemma nodesOf_self: "t \<in> set (nodesOf t)"
  by (cases t) simp

lemma nodesOf_Tweet_Some:
  "set (nodesOf (Tweet p r (Some cs))) = insert (Tweet p r (Some cs)) (\<Union>c\<in>set cs. set (nodesOf c))"
  by simp

lemma copyOf_children: "children (copyOf tweets k) = Some []"
  by (simp add: copyOf_def withNoChildren_def split: option.splits)

lemma nodesOf_leaf: "children t = Some [] \<Longrightarrow> nodesOf t = [t]"
  by (cases t) simp

lemma nodesOf_copyOf: "nodesOf (copyOf tweets k) = [copyOf tweets k]"
  by (simp add: nodesOf_leaf copyOf_children)

lemma attach_nodes_inv:
  "(\<And>k. Q (props (copyOf tweets k)) (repliedTo (copyOf tweets k))) \<Longrightarrow>
   (\<forall>n\<in>set (nodesOf t). Q (props n) (repliedTo n)) \<Longrightarrow>
     \<forall>n\<in>set (nodesOf (fst (attachChildren tweets conv P t))). Q (props n) (repliedTo n)"
  "(\<And>k. Q (props (copyOf tweets k)) (repliedTo (copyOf tweets k))) \<Longrightarrow>
     \<forall>c\<in>set (fst (attachEach tweets conv P ks)). \<forall>n\<in>set (nodesOf c). Q (props n) (repliedTo n)"
proof (induction tweets conv P t and tweets conv P ks rule: attachChildren_attachEach.induct)
  case (1 tweets conv P t)
  show ?case
  proof (cases "tweetId (props t) \<in> P")
    case True
    then show ?thesis using "1.prems" by simp
  next
    case False
    show ?thesis
    proof (cases "filter (repliesTo t) conv")
      case Nil
      then show ?thesis using False "1.prems" by simp
    next
      case (Cons child rest)
      obtain cs P1 where e: "attachEach tweets conv (insert (tweetId (props t)) P) (child # rest) = (cs, P1)"
        by fastforce
      have ih: "\<forall>c\<in>set cs. \<forall>n\<in>set (nodesOf c). Q (props n) (repliedTo n)"
        using "1.IH" [OF False Cons "1.prems"(1)] e by simp
      have self: "Q (props t) (repliedTo t)" using "1.prems"(2) nodesOf_self by blast
      have res: "fst (attachChildren tweets conv P t) = Tweet (props t) (repliedTo t) (Some cs)"
        using False Cons e by simp
      show ?thesis unfolding res using ih self by auto
    qed
  qed
next
  case (2 tweets conv P)
  then show ?case by simp
next
  case (3 tweets conv P child rest)
  note Q = "3.prems"
  obtain c P1 where a: "attachChildren tweets conv P (copyOf tweets (tweetId (props child))) = (c, P1)"
    by fastforce
  obtain cs P2 where b: "attachEach tweets conv P1 rest = (cs, P2)" by fastforce
  have copy_nodes: "\<forall>n\<in>set (nodesOf (copyOf tweets k)). Q (props n) (repliedTo n)" for k
    using Q [of k] by (simp add: nodesOf_copyOf)
  have 1: "\<forall>n\<in>set (nodesOf c). Q (props n) (repliedTo n)"
    using "3.IH"(1) [OF Q copy_nodes] a by simp
  have 2: "\<forall>c\<in>set cs. \<forall>n\<in>set (nodesOf c). Q (props n) (repliedTo n)"
    using "3.IH"(2) [OF a [symmetric] Q] b by simp
  show ?case using a b 1 2 by simp
qed

subsection \<open>Invalid batch shapes\<close>

lemma jor_falsy: "\<not> jtruthy a \<Longrightarrow> jor a b = b"
  by (simp add: jor_def)

lemma processBatches_Nil: "processBatches [] [] [] = Inr []"
  by (simp add: processBatches_def mergeBatches_def processSupplementary_def Let_def)

lemma fetch_not_array:
  "\<not> isArray (rawTweetsOf resp) \<or> \<not> isArray (includesTweetsOf resp) \<or> \<not> isArray (repliedToTweetsOf resp)
   \<Longrightarrow> fetchUserTweets resp = Inl TypeError"
  by (auto simp: fetchUserTweets_def isArray_def split: jsval.splits)

text \<open>
  Claim C9 (as amended). A batch that is null, absent or otherwise falsy at every place
  where the engine looks for it is replaced by the empty array and processed as such; when
  all three batches are empty the engine returns the empty list. Array values are passed to
  the processing as they are. A value that is not an array and is truthy (an object, a
  non-empty string, a non-zero number, \<^verbatim>\<open>true\<close>) in any of the three positions makes the
  engine throw a TypeError.
\<close>

theorem falsy_batch_is_empty:
  "(\<not> jtruthy (optProp (resp_data resp) data_tweets) \<longrightarrow> rawTweetsOf resp = JArray [])
   \<and> (\<not> jtruthy (optProp (optObj (resp_data resp) data_includes) includes_tweets) \<and>
      \<not> jtruthy (optProp (resp_includes resp) includes_tweets) \<longrightarrow> includesTweetsOf resp = JArray [])
   \<and> (\<not> jtruthy (optProp (resp_data resp) data_replied_to_tweets) \<and>
      \<not> jtruthy (optProp (resp_data resp) data_repliedToTweets) \<and>
      \<not> jtruthy (resp_replied_to_tweets resp) \<longrightarrow> repliedToTweetsOf resp = JArray [])
   \<and> (rawTweetsOf resp = JArray [] \<and> includesTweetsOf resp = JArray [] \<and>
      repliedToTweetsOf resp = JArray [] \<longrightarrow> fetchUserTweets resp = Inr [])
   \<and> (rawTweetsOf resp = JArray rawTweets \<and> includesTweetsOf resp = JArray includesTweets \<and>
      repliedToTweetsOf resp = JArray repliedToTweets \<longrightarrow>
        fetchUserTweets resp = processBatches rawTweets includesTweets repliedToTweets)
   \<and> (\<not> isArray (rawTweetsOf resp) \<or> \<not> isArray (includesTweetsOf resp) \<or>
      \<not> isArray (repliedToTweetsOf resp) \<longrightarrow> fetchUserTweets resp = Inl TypeError)"
proof -
  have 1: "\<not> jtruthy (optProp (resp_data resp) data_tweets) \<longrightarrow> rawTweetsOf resp = JArray []"
    by (simp add: rawTweetsOf_def jor_falsy)
  have 2: "\<not> jtruthy (optProp (optObj (resp_data resp) data_includes) includes_tweets) \<and>
      \<not> jtruthy (optProp (resp_includes resp) includes_tweets) \<longrightarrow> includesTweetsOf resp = JArray []"
    by (simp add: includesTweetsOf_def jor_falsy)
  have 3: "\<not> jtruthy (optProp (resp_data resp) data_replied_to_tweets) \<and>
      \<not> jtruthy (optProp (resp_data resp) data_repliedToTweets) \<and>
      \<not> jtruthy (resp_replied_to_tweets resp) \<longrightarrow> repliedToTweetsOf resp = JArray []"
    by (simp add: repliedToTweetsOf_def jor_falsy)
  have 4: "rawTweetsOf resp = JArray [] \<and> includesTweetsOf resp = JArray [] \<and>
      repliedToTweetsOf resp = JArray [] \<longrightarrow> fetchUserTweets resp = Inr []"
    by (simp add: fetchUserTweets_def processBatches_Nil)
  have 5: "rawTweetsOf resp = JArray rawTweets \<and> includesTweetsOf resp = JArray includesTweets \<and>
      repliedToTweetsOf resp = JArray repliedToTweets \<longrightarrow>
        fetchUserTweets resp = processBatches rawTweets includesTweets repliedToTweets"
    by (simp add: fetchUserTweets_def)
  have 6: "\<not> isArray (rawTweetsOf resp) \<or> \<not> isArray (includesTweetsOf resp) \<or>
      \<not> isArray (repliedToTweetsOf resp) \<longrightarrow> fetchUserTweets resp = Inl TypeError"
    using fetch_not_array by blast
  from 1 2 3 4 5 6 show ?thesis by blast
qed

theorem falsy_batch_is_empty_witness:
  "fetchUserTweets (response JNull (JStr []) (JNum 0)) = Inr [] \<and>
   fetchUserTweets (response JObject (JArray []) (JArray [])) = Inl TypeError"
proof -
  let ?r = "response JNull (JStr []) (JNum 0)"
  have a: "\<not> jtruthy (optProp (resp_data ?r) data_tweets)"
    "\<not> jtruthy (optProp (optObj (resp_data ?r) data_includes) includes_tweets)"
    "\<not> jtruthy (optProp (resp_includes ?r) includes_tweets)"
    "\<not> jtruthy (optProp (resp_data ?r) data_replied_to_tweets)"
    "\<not> jtruthy (optProp (resp_data ?r) data_repliedToTweets)"
    "\<not> jtruthy (resp_replied_to_tweets ?r)"
    by (simp_all add: response_def optProp_def optObj_def)
  have b: "\<not> isArray (rawTweetsOf (response JObject (JArray []) (JArray [])))"
    by (simp add: response_def rawTweetsOf_def optProp_def jor_def isArray_def)
  from falsy_batch_is_empty [of ?r] a have "fetchUserTweets ?r = Inr []" by blast
  moreover from falsy_batch_is_empty [of "response JObject (JArray []) (JArray [])"] b
  have "fetchUserTweets (response JObject (JArray []) (JArray [])) = Inl TypeError" by blast
  ultimately show ?thesis by simp
qed

text \<open>
  Claim C9 as stated fails: with a JSON object where the included batch is expected, the
  engine throws.
\<close>

theorem non_array_batch_counterexample:
  "fetchUserTweets (response (JArray []) JObject (JArray [])) = Inl TypeError"
  by code_simp

subsection \<open>Reply resolution\<close>

lemma find_Some_D: "find P xs = Some x \<Longrightarrow> x \<in> set xs \<and> P x"
  by (induction xs) (auto split: if_splits)

lemma adoptConversation_main:
  assumes g: "\<And>c t. g (setConversationId c t) = g t"
    and a: "adoptConversation R ms p = (ms', p')"
  shows "map g ms' = map g ms" "g p' = g p"
  using a g by (auto simp: adoptConversation_def mutateFirst_map split: option.splits if_splits)

lemma mapSupplementary_main:
  assumes g: "\<And>c t. g (setConversationId c t) = g t"
  shows "mapSupplementary src R ms batch = (ms', ps) \<Longrightarrow> map g ms' = map g ms"
proof (induction batch arbitrary: ms ms' ps)
  case Nil
  then show ?case by simp
next
  case (Cons tw rest)
  show ?case
  proof (cases "processRawTweet tw")
    case None
    with Cons show ?thesis by simp
  next
    case (Some p)
    obtain m1 p1 where a: "adoptConversation (R (optObj tw (\<lambda>t. raw_id (flat t)))) ms (setSource src p) = (m1, p1)"
      by fastforce
    obtain m2 others where r: "mapSupplementary src R m1 rest = (m2, others)"
      by fastforce
    from Cons.prems Some a r have eq: "ms' = m2" by auto
    from adoptConversation_main(1) [OF g a] Cons.IH [OF r] show ?thesis unfolding eq by simp
  qed
qed

lemma processSupplementary_main:
  assumes g: "\<And>c t. g (setConversationId c t) = g t"
    and "processSupplementary src R ms batch = (ms', ps)"
  shows "map g ms' = map g ms"
  using assms(2) mapSupplementary_main [OF g] by (simp add: processSupplementary_def)

lemma mergeBatches_main:
  assumes g: "\<And>c t. g (setConversationId c t) = g t"
    and m: "mergeBatches rawTweets includesTweets repliedToTweets = Inr (mainT, incT, repT)"
    and raws: "those rawTweets = Some raws"
  shows "map g mainT = map (\<lambda>t. g (processMainTweet (buildTweetMap rawTweets includesTweets repliedToTweets) raws t)) raws"
proof -
  define m0 where "m0 = map (processMainTweet (buildTweetMap rawTweets includesTweets repliedToTweets) raws) raws"
  obtain m1 i1 where p1: "processSupplementary SrcIncludes referencesIncluded m0 includesTweets = (m1, i1)"
    by fastforce
  obtain m2 r2 where p2: "processSupplementary SrcRepliedTo matchesReplyId m1 repliedToTweets = (m2, r2)"
    by fastforce
  from m raws p1 p2 have eq: "mainT = m2"
    by (auto simp: mergeBatches_def Let_def m0_def)
  from processSupplementary_main [OF g p1] processSupplementary_main [OF g p2]
  show ?thesis unfolding eq by (simp add: m0_def comp_def)
qed

lemma mergeBatches_supplementary:
  assumes m: "mergeBatches rawTweets includesTweets repliedToTweets = Inr (mainT, incT, repT)"
  shows "\<forall>p\<in>set incT. repliedTo p = None \<and> source (props p) = Some SrcIncludes"
    and "\<forall>p\<in>set repT. repliedTo p = None \<and> source (props p) = Some SrcRepliedTo"
proof -
  from m obtain raws where raws: "those rawTweets = Some raws"
    by (auto simp: mergeBatches_def split: option.splits)
  define m0 where "m0 = map (processMainTweet (buildTweetMap rawTweets includesTweets repliedToTweets) raws) raws"
  obtain m1 i1 where p1: "processSupplementary SrcIncludes referencesIncluded m0 includesTweets = (m1, i1)"
    by fastforce
  obtain m2 r2 where p2: "processSupplementary SrcRepliedTo matchesReplyId m1 repliedToTweets = (m2, r2)"
    by fastforce
  from m raws p1 p2 have eq: "incT = i1" "repT = r2"
    by (auto simp: mergeBatches_def Let_def m0_def)
  from processSupplementary_ids(4) [OF p1] processSupplementary_ids(4) [OF p2]
  show "\<forall>p\<in>set incT. repliedTo p = None \<and> source (props p) = Some SrcIncludes"
    and "\<forall>p\<in>set repT. repliedTo p = None \<and> source (props p) = Some SrcRepliedTo"
    unfolding eq by simp_all
qed

lemma mergeBatches_total:
  "those rawTweets = Some raws \<Longrightarrow> \<exists>mainT incT repT. mergeBatches rawTweets includesTweets repliedToTweets = Inr (mainT, incT, repT)"
  by (simp add: mergeBatches_def Let_def split: prod.splits)

lemma resolveById_keep: "found \<noteq> None \<Longrightarrow> resolveById m raws k found = found"
  by (cases found) (simp_all add: resolveById_def)

text \<open>
  Claim C7. The primary post 5 embeds no reply target inline, and its reference list has an
  entry marking 4 as the reply target without an embedded record; record 4 is the only
  record of the included batch. When post 5 has a \<^verbatim>\<open>text\<close> property, the fetch returns
  post 5 followed by record 4: the \<^verbatim>\<open>repliedTo\<close> of post 5 is the depth-one snapshot of
  the raw record 4, which has the id 4 and the text, date, url, author, counts, view count,
  entities and card resolved from record 4, with no reply linkage, no \<^verbatim>\<open>repliedTo\<close> and no
  \<^verbatim>\<open>children\<close>; and record 4 is an entity of its own with the provenance tag of the
  included batch. When post 5 has no \<^verbatim>\<open>text\<close> property (a record delivered with
  \<^verbatim>\<open>full_text\<close> only), the summary log reads \<^verbatim>\<open>allTweets[0].text.substring\<close> and the fetch
  throws a TypeError, although the log of the primary loop guards the same read with
  \<^verbatim>\<open>tweet.text?.substring\<close>.
\<close>

theorem reply_resolved_by_reference_list:
  assumes r5: "raw_id (flat r5) = Some ''5''"
      "raw_replied_to r5 = None" "raw_repliedTo r5 = None"
      "orObj (raw_referenced_tweets r5) (raw_referencedTweets r5) = Some refs"
      "find isRepliedToRef refs = Some ref" "ref_tweet ref = None" "ref_id ref = Some ''4''"
    and r4: "raw_id (flat r4) = Some ''4''"
  shows "(raw_text (flat r5) \<noteq> None \<longrightarrow>
           (\<exists>t5 t4.
              fetchUserTweets (response (JArray [Some r5]) (JArray [Some r4]) (JArray [])) = Inr [t5, t4]
              \<and> tweetId (props t5) = Some ''5'' \<and> source (props t5) = Some SrcMain
              \<and> repliedTo t5 =
                  Some (Tweet
                    (noFields
                      \<lparr> tweetId := Some ''4'',
                        tweetText := orStr (raw_text (flat r4)) (orStr (raw_full_text (flat r4)) (Some '''')),
                        createdAt := map_option NotNull
                          (orStr (valueOf (raw_createdAt (flat r4))) (orStr (raw_created_at (flat r4)) (Some ''''))),
                        url := raw_url (flat r4),
                        author := Some (authorOf (flat r4)),
                        likeCount := orNum (raw_likeCount (flat r4)) (orNum (raw_like_count (flat r4))
                          (orNum (metricsProp (raw_public_metrics (flat r4)) like_count) (Some 0))),
                        retweetCount := orNum (raw_retweetCount (flat r4)) (orNum (raw_retweet_count (flat r4))
                          (orNum (metricsProp (raw_public_metrics (flat r4)) retweet_count) (Some 0))),
                        replyCount := orNum (raw_replyCount (flat r4)) (orNum (raw_reply_count (flat r4))
                          (orNum (metricsProp (raw_public_metrics (flat r4)) reply_count) (Some 0))),
                        quoteCount := orNum (raw_quoteCount (flat r4)) (orNum (raw_quote_count (flat r4))
                          (orNum (metricsProp (raw_public_metrics (flat r4)) quote_count) (Some 0))),
                        viewCount := orNum (raw_viewCount (flat r4)) (orNum (raw_view_count (flat r4))
                          (metricsProp (raw_public_metrics (flat r4)) impression_count)),
                        entities := raw_entities (flat r4),
                        tweetCard := orObj (raw_card (flat r4)) (raw_Card (flat r4)) \<rparr>)
                    None None)
              \<and> tweetId (props t4) = Some ''4'' \<and> source (props t4) = Some SrcIncludes
              \<and> repliedTo t4 = None))
       \<and> (raw_text (flat r5) = None \<longrightarrow>
            fetchUserTweets (response (JArray [Some r5]) (JArray [Some r4]) (JArray [])) = Inl TypeError)"
proof -
  let ?resp = "response (JArray [Some r5]) (JArray [Some r4]) (JArray [])"
  let ?tm = "buildTweetMap [Some r5] [Some r4] []"
  let ?snapshot = "
      Some (Tweet
        (noFields
          \<lparr> tweetId := Some ''4'',
            tweetText := orStr (raw_text (flat r4)) (orStr (raw_full_text (flat r4)) (Some '''')),
            createdAt := map_option NotNull
              (orStr (valueOf (raw_createdAt (flat r4))) (orStr (raw_created_at (flat r4)) (Some ''''))),
            url := raw_url (flat r4),
            author := Some (authorOf (flat r4)),
            likeCount := orNum (raw_likeCount (flat r4)) (orNum (raw_like_count (flat r4))
              (orNum (metricsProp (raw_public_metrics (flat r4)) like_count) (Some 0))),
            retweetCount := orNum (raw_retweetCount (flat r4)) (orNum (raw_retweet_count (flat r4))
              (orNum (metricsProp (raw_public_metrics (flat r4)) retweet_count) (Some 0))),
            replyCount := orNum (raw_replyCount (flat r4)) (orNum (raw_reply_count (flat r4))
              (orNum (metricsProp (raw_public_metrics (flat r4)) reply_count) (Some 0))),
            quoteCount := orNum (raw_quoteCount (flat r4)) (orNum (raw_quote_count (flat r4))
              (orNum (metricsProp (raw_public_metrics (flat r4)) quote_count) (Some 0))),
            viewCount := orNum (raw_viewCount (flat r4)) (orNum (raw_view_count (flat r4))
              (metricsProp (raw_public_metrics (flat r4)) impression_count)),
            entities := raw_entities (flat r4),
            tweetCard := orObj (raw_card (flat r4)) (raw_Card (flat r4)) \<rparr>)
        None None)"
  have sel: "rawTweetsOf ?resp = JArray [Some r5]" "includesTweetsOf ?resp = JArray [Some r4]"
    "repliedToTweetsOf ?resp = JArray []"
    by (simp_all add: response_def rawTweetsOf_def includesTweetsOf_def repliedToTweetsOf_def
        optProp_def optObj_def jor_def)
  have f: "fetchUserTweets ?resp = processBatches [Some r5] [Some r4] []"
    by (simp add: fetchUserTweets_def sel)
  obtain mainT incT repT where m: "mergeBatches [Some r5] [Some r4] [] = Inr (mainT, incT, repT)"
    using mergeBatches_total [of "[Some r5]" "[r5]" "[Some r4]" "[]"] by auto
  note ids = mergeBatches_ids [OF m]
  have rid: "map rawIdOf [Some r5] = [Some ''5'']" "map rawIdOf [Some r4] = [Some ''4'']"
    by (simp_all add: rawIdOf_def optObj_def r5 r4)
  from ids(1) rid have "idsOf mainT = [Some ''5'']" by simp
  then obtain t5 where mainT: "mainT = [t5]" and id5: "tweetId (props t5) = Some ''5''"
    by (auto simp: idsOf_def)
  from ids(2) rid have "idsOf incT = [Some ''4'']" by (simp add: \<open>idsOf mainT = [Some ''5'']\<close> truthy_def)
  then obtain t4 where incT: "incT = [t4]" and id4: "tweetId (props t4) = Some ''4''"
    by (auto simp: idsOf_def)
  from ids(3) have repT: "repT = []" by (simp add: idsOf_def)
  from mergeBatches_supplementary(1) [OF m] incT
  have src4: "source (props t4) = Some SrcIncludes" and rep4: "repliedTo t4 = None"
    by simp_all
  have th: "those [Some r5] = Some [r5]" by simp
  have tm4: "?tm ''4'' = Some r4"
    by (simp add: buildTweetMap_def setAlways_def setIfAbsent_def r4 r5)
  have o1: "orObj (raw_replied_to r5) (raw_repliedTo r5) = None"
    by (simp add: orObj_def r5(2,3))
  have emb: "resolveEmbedded ?tm r5 = createCleanRepliedToTweet (Some r4)"
    by (simp add: resolveEmbedded_def o1 r5(4,5,6,7) mapGet_def tm4 truthy_def)
  have clean: "createCleanRepliedToTweet (Some r4) = ?snapshot"
    by (simp add: createCleanRepliedToTweet_def Let_def r4)
  then have clean_some: "createCleanRepliedToTweet (Some r4) \<noteq> None" by simp
  have keep: "resolveById ?tm [r5] k (createCleanRepliedToTweet (Some r4)) = createCleanRepliedToTweet (Some r4)" for k
    using clean_some by (rule resolveById_keep)
  have rep5: "repliedTo (processMainTweet ?tm [r5] r5) = createCleanRepliedToTweet (Some r4)"
    by (simp add: processMainTweet_def Let_def emb keep)
  from mergeBatches_main [where g = repliedTo, OF _ m th] mainT rep5
  have "repliedTo t5 = createCleanRepliedToTweet (Some r4)" by simp
  with clean have r: "repliedTo t5 = ?snapshot" by simp
  from mergeBatches_main [where g = "\<lambda>t. source (props t)", OF _ m th] mainT
  have s: "source (props t5) = Some SrcMain" by (simp add: processMainTweet_def Let_def)
  from mergeBatches_main [where g = "\<lambda>t. tweetText (props t)", OF _ m th] mainT
  have t: "tweetText (props t5) = raw_text (flat r5)" by (simp add: processMainTweet_def Let_def)
  have pb: "processBatches [Some r5] [Some r4] [] =
      (if raw_text (flat r5) = None then Inl TypeError else Inr [t5, t4])"
    using m mainT incT repT t by (simp add: processBatches_def Let_def)
  show ?thesis
  proof (intro conjI impI)
    assume "raw_text (flat r5) \<noteq> None"
    with pb f have "fetchUserTweets ?resp = Inr [t5, t4]" by simp
    with id5 s r id4 src4 rep4
    show "\<exists>t5 t4. fetchUserTweets ?resp = Inr [t5, t4]
        \<and> tweetId (props t5) = Some ''5'' \<and> source (props t5) = Some SrcMain
        \<and> repliedTo t5 = ?snapshot
        \<and> tweetId (props t4) = Some ''4'' \<and> source (props t4) = Some SrcIncludes
        \<and> repliedTo t4 = None" by blast
  next
    assume "raw_text (flat r5) = None"
    with pb f show "fetchUserTweets ?resp = Inl TypeError" by simp
  qed
qed

text \<open>
  Post 5 with a text and the record 4 that has reply linkage and an embedded record: the
  snapshot carries the id, text, date, default author and counts of record 4 and nothing
  else. Post 5 with \<^verbatim>\<open>full_text\<close> only: the fetch throws.
\<close>

theorem reply_resolved_by_reference_list_witness:
  "(\<exists>t5 t4.
      fetchUserTweets (response (JArray [Some post5]) (JArray [Some linkedPost4]) (JArray [])) = Inr [t5, t4]
      \<and> tweetId (props t5) = Some ''5'' \<and> source (props t5) = Some SrcMain
      \<and> repliedTo t5 =
          Some (Tweet
            (noFields
              \<lparr> tweetId := Some ''4'', tweetText := Some ''hello'', createdAt := Some (NotNull day2),
                author := Some \<lparr> userName = ''unknown'', name = ''Unknown User'', profilePicture = '''' \<rparr>,
                likeCount := Some 3, retweetCount := Some 0, replyCount := Some 0,
                quoteCount := Some 0 \<rparr>)
            None None)
      \<and> tweetId (props t4) = Some ''4'' \<and> source (props t4) = Some SrcIncludes
      \<and> repliedTo t4 = None)
   \<and> fetchUserTweets (response (JArray [Some fullTextPost5]) (JArray [Some linkedPost4]) (JArray []))
       = Inl TypeError"
proof -
  let ?ref = "Ref (Some ''replied_to'') None (Some ''4'') None"
  have p5: "raw_id (flat post5) = Some ''5''" "raw_replied_to post5 = None" "raw_repliedTo post5 = None"
    "orObj (raw_referenced_tweets post5) (raw_referencedTweets post5) = Some [?ref]"
    by (simp_all add: post5_def rawPost_def orObj_def)
  have q5: "raw_id (flat fullTextPost5) = Some ''5''" "raw_replied_to fullTextPost5 = None"
    "raw_repliedTo fullTextPost5 = None"
    "orObj (raw_referenced_tweets fullTextPost5) (raw_referencedTweets fullTextPost5) = Some [?ref]"
    by (simp_all add: fullTextPost5_def rawPost_def orObj_def)
  have fr: "find isRepliedToRef [?ref] = Some ?ref" "ref_tweet ?ref = None" "ref_id ?ref = Some ''4''"
    by (simp_all add: isRepliedToRef_def)
  have p4: "raw_id (flat linkedPost4) = Some ''4''"
    by (simp add: linkedPost4_def rawPost_def)
  have a: "raw_text (flat post5) \<noteq> None" by (simp add: post5_def rawPost_def)
  have b: "raw_text (flat fullTextPost5) = None" by (simp add: fullTextPost5_def rawPost_def)
  have snap: "
      Some (Tweet
        (noFields
          \<lparr> tweetId := Some ''4'',
            tweetText := orStr (raw_text (flat linkedPost4)) (orStr (raw_full_text (flat linkedPost4)) (Some '''')),
            createdAt := map_option NotNull
              (orStr (valueOf (raw_createdAt (flat linkedPost4))) (orStr (raw_created_at (flat linkedPost4)) (Some ''''))),
            url := raw_url (flat linkedPost4),
            author := Some (authorOf (flat linkedPost4)),
            likeCount := orNum (raw_likeCount (flat linkedPost4)) (orNum (raw_like_count (flat linkedPost4))
              (orNum (metricsProp (raw_public_metrics (flat linkedPost4)) like_count) (Some 0))),
            retweetCount := orNum (raw_retweetCount (flat linkedPost4)) (orNum (raw_retweet_count (flat linkedPost4))
              (orNum (metricsProp (raw_public_metrics (flat linkedPost4)) retweet_count) (Some 0))),
            replyCount := orNum (raw_replyCount (flat linkedPost4)) (orNum (raw_reply_count (flat linkedPost4))
              (orNum (metricsProp (raw_public_metrics (flat linkedPost4)) reply_count) (Some 0))),
            quoteCount := orNum (raw_quoteCount (flat linkedPost4)) (orNum (raw_quote_count (flat linkedPost4))
              (orNum (metricsProp (raw_public_metrics (flat linkedPost4)) quote_count) (Some 0))),
            viewCount := orNum (raw_viewCount (flat linkedPost4)) (orNum (raw_view_count (flat linkedPost4))
              (metricsProp (raw_public_metrics (flat linkedPost4)) impression_count)),
            entities := raw_entities (flat linkedPost4),
            tweetCard := orObj (raw_card (flat linkedPost4)) (raw_Card (flat linkedPost4)) \<rparr>)
        None None)
    = Some (Tweet
        (noFields
          \<lparr> tweetId := Some ''4'', tweetText := Some ''hello'', createdAt := Some (NotNull day2),
            author := Some \<lparr> userName = ''unknown'', name = ''Unknown User'', profilePicture = '''' \<rparr>,
            likeCount := Some 3, retweetCount := Some 0, replyCount := Some 0,
            quoteCount := Some 0 \<rparr>)
        None None)"
    by (simp add: linkedPost4_def rawPost_def noRawFields_def noFields_def orStr_def orNum_def
        orObj_def truthy_def truthyNum_def metricsProp_def authorOf_def userProp_def orDefault_def
        valueOf_def)
  from reply_resolved_by_reference_list [OF p5 fr p4, unfolded snap]
    reply_resolved_by_reference_list [OF q5 fr p4] a b
  show ?thesis by simp
qed


subsection \<open>Grouping and sorting\<close>

lemma distinctFirst_set [simp]: "set (distinctFirst xs) = set xs"
  by (induction xs) auto

lemma distinctFirst_distinct [simp]: "distinct (distinctFirst xs)"
  by (induction xs) auto

lemma distinctFirst_snoc:
  "distinctFirst (xs @ [x]) = (if x \<in> set xs then distinctFirst xs else distinctFirst xs @ [x])"
  by (induction xs) auto

lemma pushInto_in:
  "c \<in> set ks \<Longrightarrow> distinct ks \<Longrightarrow>
     pushInto c t (map (\<lambda>k. (k, f k)) ks) = map (\<lambda>k. (k, if k = c then f k @ [t] else f k)) ks"
  by (induction ks) auto

lemma pushInto_notin:
  "c \<notin> set ks \<Longrightarrow> pushInto c t (map (\<lambda>k. (k, f k)) ks) = map (\<lambda>k. (k, f k)) ks @ [(c, [t])]"
  by (induction ks) auto

lemma map_filter_snoc: "List.map_filter f (xs @ [x]) = List.map_filter f xs @ (case f x of None \<Rightarrow> [] | Some y \<Rightarrow> [y])"
  by (simp add: List.map_filter_def split: option.splits)

lemma keyOf_Some: "keyOf t = Some c \<longleftrightarrow> conversationId (props t) = Some c \<and> c \<noteq> []"
  by (auto simp: keyOf_def truthy_def split: option.splits)

lemma keyOf_None: "keyOf t = None \<longleftrightarrow> \<not> truthy (conversationId (props t))"
  by (auto simp: keyOf_def truthy_def split: option.splits)

lemma conversationKeys_set: "set (conversationKeys ts) = {c. \<exists>t\<in>set ts. keyOf t = Some c}"
  by (auto simp: conversationKeys_def List.map_filter_def) force

lemma conversationMapOf_char:
  "conversationMapOf ts = map (\<lambda>c. (c, membersOf c ts)) (conversationKeys ts)"
proof (induction ts rule: rev_induct)
  case Nil
  then show ?case by (simp add: conversationMapOf_def conversationKeys_def List.map_filter_def)
next
  case (snoc t ts)
  have step: "conversationMapOf (ts @ [t]) = groupStep (conversationMapOf ts) t"
    by (simp add: conversationMapOf_def)
  show ?case
  proof (cases "keyOf t")
    case None
    then have k: "conversationKeys (ts @ [t]) = conversationKeys ts"
      by (simp add: conversationKeys_def map_filter_snoc)
    from None have nt: "\<not> truthy (conversationId (props t))" by (simp add: keyOf_None)
    then have g: "groupStep (conversationMapOf ts) t = conversationMapOf ts"
      by (auto simp: groupStep_def truthy_def split: option.splits)
    have m: "membersOf c (ts @ [t]) = membersOf c ts" if "c \<in> set (conversationKeys ts)" for c
    proof -
      from that have "c \<noteq> []" by (auto simp: conversationKeys_set keyOf_Some)
      with nt show ?thesis by (auto simp: membersOf_def truthy_def)
    qed
    have "conversationMapOf (ts @ [t]) = map (\<lambda>c. (c, membersOf c ts)) (conversationKeys ts)"
      using step g snoc.IH by simp
    also have "\<dots> = map (\<lambda>c. (c, membersOf c (ts @ [t]))) (conversationKeys (ts @ [t]))"
      unfolding k using m by simp
    finally show ?thesis .
  next
    case (Some c)
    then have c: "conversationId (props t) = Some c" "c \<noteq> []" by (simp_all add: keyOf_Some)
    then have g: "groupStep (conversationMapOf ts) t = pushInto c t (conversationMapOf ts)"
      by (simp add: groupStep_def)
    have k: "conversationKeys (ts @ [t]) =
        (if c \<in> set (conversationKeys ts) then conversationKeys ts else conversationKeys ts @ [c])"
      using Some by (simp add: conversationKeys_def map_filter_snoc distinctFirst_snoc)
    have m: "membersOf k (ts @ [t]) = (if k = c then membersOf k ts @ [t] else membersOf k ts)" for k
      using c by (auto simp: membersOf_def)
    show ?thesis
    proof (cases "c \<in> set (conversationKeys ts)")
      case True
      have d: "distinct (conversationKeys ts)" by (simp add: conversationKeys_def)
      have "conversationMapOf (ts @ [t]) = pushInto c t (map (\<lambda>c. (c, membersOf c ts)) (conversationKeys ts))"
        using step g snoc.IH by simp
      also have "\<dots> = map (\<lambda>k. (k, if k = c then membersOf k ts @ [t] else membersOf k ts)) (conversationKeys ts)"
        by (rule pushInto_in [OF True d])
      also have "\<dots> = map (\<lambda>c. (c, membersOf c (ts @ [t]))) (conversationKeys (ts @ [t]))"
        unfolding k using True by (simp add: m)
      finally show ?thesis .
    next
      case False
      then have e: "membersOf c ts = []"
        using c by (auto simp: membersOf_def conversationKeys_set keyOf_Some filter_empty_conv)
      have ne: "k \<noteq> c" if "k \<in> set (conversationKeys ts)" for k using that False by auto
      have "conversationMapOf (ts @ [t]) = pushInto c t (map (\<lambda>c. (c, membersOf c ts)) (conversationKeys ts))"
        using step g snoc.IH by simp
      also have "\<dots> = map (\<lambda>c. (c, membersOf c ts)) (conversationKeys ts) @ [(c, [t])]"
        by (rule pushInto_notin [OF False])
      also have "\<dots> = map (\<lambda>c. (c, membersOf c (ts @ [t]))) (conversationKeys (ts @ [t]))"
        unfolding k using False ne by (simp add: m e)
      finally show ?thesis .
    qed
  qed
qed

lemma insertSorted_set [simp]: "set (insertSorted cmp x ys) = insert x (set ys)"
  by (induction ys) auto

lemma sortWith_Cons: "sortWith cmp (x # xs) = insertSorted cmp x (sortWith cmp xs)"
  by (simp add: sortWith_def)

lemma sortWith_Nil [simp]: "sortWith cmp [] = []"
  by (simp add: sortWith_def)

lemma sortWith_set [simp]: "set (sortWith cmp xs) = set xs"
  by (induction xs) (simp_all add: sortWith_Cons)

subsection \<open>Snapshot depth\<close>

lemma map_singleton_True: "map f xs = [True] \<Longrightarrow> \<forall>x\<in>set xs. f x"
  by (cases xs) auto

lemma copyOf_cases:
  "(\<exists>t\<in>set tweets. props (copyOf tweets k) = props t \<and> repliedTo (copyOf tweets k) = repliedTo t \<and> tweetId (props t) = k \<and> truthy k)
   \<or> (props (copyOf tweets k) = noFields \<and> repliedTo (copyOf tweets k) = None)"
  by (auto simp: copyOf_def threadMapGet_def withNoChildren_def split: option.splits dest!: find_Some_D)

lemma copyOf_inv:
  assumes "Q noFields None" "\<forall>t\<in>set tweets. Q (props t) (repliedTo t)"
  shows "Q (props (copyOf tweets k)) (repliedTo (copyOf tweets k))"
  using copyOf_cases [of tweets k] assms by auto

lemma processConversation_inv:
  assumes "Q noFields None" "\<forall>t\<in>set tweets. Q (props t) (repliedTo t)"
  shows "\<forall>r\<in>set (processConversation tweets conv). \<forall>n\<in>set (nodesOf r). Q (props n) (repliedTo n)"
  unfolding processConversation_def
  by (rule attach_nodes_inv(2)) (rule copyOf_inv [OF assms])

lemma placeOrphan_inv:
  assumes "Q noFields None" "\<forall>t\<in>set tweets. Q (props t) (repliedTo t)"
  shows "\<forall>r\<in>set (placeOrphan tweets t). \<forall>n\<in>set (nodesOf r). Q (props n) (repliedTo n)"
  using copyOf_inv [OF assms]
  by (auto simp: placeOrphan_def nodesOf_copyOf split: option.splits)

lemma organize_inv:
  assumes "Q noFields None" "\<forall>t\<in>set tweets. Q (props t) (repliedTo t)"
  shows "\<forall>r\<in>set (organizeTweetsIntoThreads tweets). \<forall>n\<in>set (nodesOf r). Q (props n) (repliedTo n)"
  using processConversation_inv [OF assms] placeOrphan_inv [OF assms]
  by (auto simp: organizeTweetsIntoThreads_def)

lemma membersOf_subset: "set (membersOf c ts) \<subseteq> set ts"
  by (auto simp: membersOf_def)

lemma composeForest_inv:
  assumes "Q noFields None" "\<forall>t\<in>set tweets. Q (props t) (repliedTo t)"
  shows "\<forall>n\<in>set (forestNodes (composeForest parseDate tweets)). Q (props n) (repliedTo n)"
proof -
  have g: "\<forall>r\<in>set (organizeTweetsIntoThreads (sortWith cmp (membersOf c tweets))).
             \<forall>n\<in>set (nodesOf r). Q (props n) (repliedTo n)" for cmp c
    by (rule organize_inv [where Q = Q, OF assms(1)]) (use assms(2) membersOf_subset in auto)
  have s: "\<forall>r\<in>set (organizeTweetsIntoThreads (sortWith cmp (orphanTweetsOf tweets))).
             \<forall>n\<in>set (nodesOf r). Q (props n) (repliedTo n)" for cmp
    by (rule organize_inv [where Q = Q, OF assms(1)]) (use assms(2) in \<open>auto simp: orphanTweetsOf_def\<close>)
  show ?thesis
    using g s
    by (auto simp: forestNodes_def composeForest_def Let_def conversationMapOf_char)
qed

lemma noFields_linkage: "repliedTo (Tweet noFields None c) = None"
  by simp

lemma fetch_snapshots_clean:
  assumes "fetchUserTweets resp = Inr tweets" "t \<in> set tweets" "repliedTo t = Some s"
  shows "cleanSnapshot s"
proof -
  from assms(1) obtain raws incs reps where pb: "processBatches raws incs reps = Inr tweets"
    by (auto simp: fetchUserTweets_def split: jsval.splits)
  then obtain mainT incT repT where m: "mergeBatches raws incs reps = Inr (mainT, incT, repT)"
    and all: "tweets = mainT @ incT @ repT"
    by (auto simp: processBatches_def Let_def split: sum.splits list.splits if_splits)
  from m obtain rs where rs: "those raws = Some rs"
    by (auto simp: mergeBatches_def split: option.splits)
  from assms(2) all consider "t \<in> set mainT" | "t \<in> set incT" | "t \<in> set repT" by auto
  then show ?thesis
  proof cases
    case 1
    from mergeBatches_main [where g = repliedTo, OF _ m rs]
    have "map repliedTo mainT = map (\<lambda>t. repliedTo (processMainTweet (buildTweetMap raws incs reps) rs t)) rs"
      by simp
    moreover from 1 assms(3) have "Some s \<in> set (map repliedTo mainT)" by force
    ultimately have "Some s \<in> (\<lambda>t. repliedTo (processMainTweet (buildTweetMap raws incs reps) rs t)) ` set rs"
      by simp
    then obtain r where "repliedTo (processMainTweet (buildTweetMap raws incs reps) rs r) = Some s"
      by force
    then show ?thesis by (rule processMain_clean)
  next
    case 2
    with mergeBatches_supplementary(1) [OF m] assms(3) show ?thesis by auto
  next
    case 3
    with mergeBatches_supplementary(2) [OF m] assms(3) show ?thesis by auto
  qed
qed

text \<open>
  Claim C6. For every raw record the snapshot entry point returns a record without
  \<^verbatim>\<open>repliedTo\<close>, without \<^verbatim>\<open>children\<close> and without any reply-linkage property, whatever
  the raw record nests. Every \<^verbatim>\<open>repliedTo\<close> value of a record returned by the fetch, and
  of a node of the forest that is shown, is such a snapshot.
\<close>

theorem snapshot_depth_one:
  "(\<exists>s. createCleanRepliedToTweet (Some r) = Some s \<and> cleanSnapshot s)
   \<and> (fetchUserTweets resp = Inr tweets \<longrightarrow>
        (\<forall>t\<in>set tweets. \<forall>s. repliedTo t = Some s \<longrightarrow> cleanSnapshot s))
   \<and> (pipeline parseDate resp = Inr (Threads blocks) \<longrightarrow>
        (\<forall>n\<in>set (forestNodes blocks). \<forall>s. repliedTo n = Some s \<longrightarrow> cleanSnapshot s))"
proof -
  have a: "\<exists>s. createCleanRepliedToTweet (Some r) = Some s \<and> cleanSnapshot s"
    using createClean_Some [of r] createClean_clean by blast
  have b: "fetchUserTweets resp = Inr tweets \<longrightarrow>
        (\<forall>t\<in>set tweets. \<forall>s. repliedTo t = Some s \<longrightarrow> cleanSnapshot s)"
    using fetch_snapshots_clean by blast
  have c: "pipeline parseDate resp = Inr (Threads blocks) \<longrightarrow>
        (\<forall>n\<in>set (forestNodes blocks). \<forall>s. repliedTo n = Some s \<longrightarrow> cleanSnapshot s)"
  proof
    assume p: "pipeline parseDate resp = Inr (Threads blocks)"
    then obtain ts where f: "fetchUserTweets resp = Inr ts" and r: "renderResults parseDate ts = Threads blocks"
      by (auto simp: pipeline_def split: sum.splits)
    from r have blocks: "blocks = composeForest parseDate ts"
      by (auto simp: renderResults_def split: list.splits if_splits)
    have "\<forall>t\<in>set ts. \<forall>s. repliedTo t = Some s \<longrightarrow> cleanSnapshot s"
      using fetch_snapshots_clean [OF f] by blast
    then show "\<forall>n\<in>set (forestNodes blocks). \<forall>s. repliedTo n = Some s \<longrightarrow> cleanSnapshot s"
      unfolding blocks
      using composeForest_inv [where Q = "\<lambda>p r. \<forall>s. r = Some s \<longrightarrow> cleanSnapshot s" and tweets = ts and parseDate = parseDate]
      by simp
  qed
  from a b c show ?thesis by blast
qed

theorem snapshot_depth_one_witness:
  "\<not> isl (fetchUserTweets nestedResponse) \<and>
   map (\<lambda>n. repliedTo n \<noteq> None)
     (forestNodes (composeForest isoDates (projr (fetchUserTweets nestedResponse)))) = [True] \<and>
   list_all (\<lambda>n. case repliedTo n of None \<Rightarrow> False | Some s \<Rightarrow> cleanSnapshot s)
     (forestNodes (composeForest isoDates (projr (fetchUserTweets nestedResponse))))"
proof -
  let ?ts = "projr (fetchUserTweets nestedResponse)"
  have n: "\<not> isl (fetchUserTweets nestedResponse)" by code_simp
  have first: "(case ?ts of [] \<Rightarrow> False
                | t # _ \<Rightarrow> tweetId (props t) \<noteq> None \<and> tweetText (props t) \<noteq> None)"
    by code_simp
  have p1: "pipeline isoDates nestedResponse = Inr (renderResults isoDates ?ts)"
    using n by (cases "fetchUserTweets nestedResponse") (auto simp: pipeline_def)
  have p2: "renderResults isoDates ?ts = Threads (composeForest isoDates ?ts)"
    using first by (cases ?ts) (auto simp: renderResults_def)
  have p: "pipeline isoDates nestedResponse = Inr (Threads (composeForest isoDates ?ts))"
    using p1 p2 by simp
  have some: "map (\<lambda>n. repliedTo n \<noteq> None) (forestNodes (composeForest isoDates ?ts)) = [True]"
    by code_simp
  from snapshot_depth_one [of reply6 nestedResponse ?ts isoDates "composeForest isoDates ?ts"] p
  have "\<forall>n\<in>set (forestNodes (composeForest isoDates ?ts)). \<forall>s. repliedTo n = Some s \<longrightarrow> cleanSnapshot s"
    by blast
  moreover from some have "\<forall>n\<in>set (forestNodes (composeForest isoDates ?ts)). repliedTo n \<noteq> None"
    by (rule map_singleton_True)
  ultimately have "list_all (\<lambda>n. case repliedTo n of None \<Rightarrow> False | Some s \<Rightarrow> cleanSnapshot s)
     (forestNodes (composeForest isoDates ?ts))"
    by (auto simp: list_all_iff split: option.splits)
  with n some show ?thesis by blast
qed


subsection \<open>Standalone records\<close>

lemma conversationKeys_Nil:
  "\<forall>t\<in>set tweets. \<not> truthy (conversationId (props t)) \<Longrightarrow> conversationKeys tweets = []"
  by (induction tweets) (auto simp: conversationKeys_def List.map_filter_def keyOf_def)

lemma placeOrphan_standalone:
  assumes "\<forall>t\<in>set tweets. \<not> truthy (conversationId (props t))"
  shows "placeOrphan tweets t = [copyOf tweets (tweetId (props t))]"
  using assms by (auto simp: placeOrphan_def split: option.splits dest!: find_Some_D)

lemma organize_standalone:
  assumes "\<forall>t\<in>set tweets. \<not> truthy (conversationId (props t))"
  shows "organizeTweetsIntoThreads tweets = map (\<lambda>t. copyOf tweets (tweetId (props t))) tweets"
proof -
  have o: "orphanTweetsOf tweets = tweets" using assms by (simp add: orphanTweetsOf_def)
  have "organizeTweetsIntoThreads tweets = concat (map (placeOrphan tweets) tweets)"
    by (simp add: organizeTweetsIntoThreads_def conversationMapOf_char conversationKeys_Nil [OF assms] o)
  also have "\<dots> = map (\<lambda>t. copyOf tweets (tweetId (props t))) tweets"
  proof -
    have "placeOrphan tweets = (\<lambda>t. [copyOf tweets (tweetId (props t))])"
      by (rule ext) (rule placeOrphan_standalone [OF assms])
    then show ?thesis by simp
  qed
  finally show ?thesis .
qed

text \<open>
  Claim C3 (as amended). The builder attaches children inside conversation groups only. When
  every record of the input lacks a conversation id, it emits one root per record, in input
  order, each a copy (of the last record with that id) with an empty \<^verbatim>\<open>children\<close> array:
  a record whose reply target is another record of the input is a separate root, not a
  child.
\<close>

theorem standalone_records_are_roots:
  assumes "\<forall>t\<in>set tweets. \<not> truthy (conversationId (props t))"
  shows "organizeTweetsIntoThreads tweets = map (\<lambda>t. copyOf tweets (tweetId (props t))) tweets
         \<and> (\<forall>r\<in>set (organizeTweetsIntoThreads tweets). children r = Some [])"
  using organize_standalone [OF assms] by (auto simp: copyOf_children)

theorem standalone_records_are_roots_witness:
  "map shapeOf (organizeTweetsIntoThreads [post ''1'' day1 None None, post ''2'' day2 None (Some ''1''), post ''3'' day3 None (Some ''2'')])
     = [Node (Some ''1'') [], Node (Some ''2'') [], Node (Some ''3'') []]"
proof -
  let ?ts = "[post ''1'' day1 None None, post ''2'' day2 None (Some ''1''), post ''3'' day3 None (Some ''2'')]"
  have h: "\<forall>t\<in>set ?ts. \<not> truthy (conversationId (props t))"
    by (simp add: post_def truthy_def)
  from standalone_records_are_roots [OF h]
  have "organizeTweetsIntoThreads ?ts = map (\<lambda>t. copyOf ?ts (tweetId (props t))) ?ts" by blast
  then have "map shapeOf (organizeTweetsIntoThreads ?ts) = map shapeOf (map (\<lambda>t. copyOf ?ts (tweetId (props t))) ?ts)"
    by simp
  also have "\<dots> = [Node (Some ''1'') [], Node (Some ''2'') [], Node (Some ''3'') []]"
    by code_simp
  finally show ?thesis .
qed

text \<open>
  Claim C3 as stated fails: record 2 replies to record 1, neither has a conversation id, and
  both come out as roots without children.
\<close>

theorem standalone_reply_counterexample:
  "map shapeOf (organizeTweetsIntoThreads [post ''1'' day1 None None, post ''2'' day2 None (Some ''1'')])
     = [Node (Some ''1'') [], Node (Some ''2'') []]"
  by code_simp

text \<open>
  Claim C4, the code at the failing input. Record 1 belongs to conversation c; record 2 has
  no conversation id and replies to record 1. The branch for this case only logs, so the
  forest holds record 1 alone and record 2 is gone.
\<close>

theorem orphan_reply_dropped:
  "map shapeOf (organizeTweetsIntoThreads [post ''1'' day1 (Some ''c'') None, post ''2'' day2 None (Some ''1'')])
     = [Node (Some ''1'') []]"
  by code_simp

subsection \<open>Conversation backfill\<close>

lemma sortWith_single [simp]: "sortWith cmp [x] = [x]"
  by (simp add: sortWith_def)





subsection \<open>Cycle safety\<close>

lemma expandedIds_leaf: "children t = Some [] \<Longrightarrow> expandedIds t = []"
  by (simp add: expandedIds_def nodesOf_leaf childrenOf_def)

lemma expandedIds_node:
  "expandedIds (Tweet p r (Some cs)) =
     (if cs = [] then [] else [tweetId p]) @ concat (map expandedIds cs)"
  by (simp add: expandedIds_def [abs_def] childrenOf_def map_concat filter_concat comp_def)

lemma attach_expanded:
  "children t = Some [] \<Longrightarrow>
     (case attachChildren tweets conv P t of (T, P') \<Rightarrow>
        P \<subseteq> P' \<and> distinct (expandedIds T) \<and> set (expandedIds T) \<subseteq> P' - P)"
  "(case attachEach tweets conv P ks of (Ts, P') \<Rightarrow>
        P \<subseteq> P' \<and> distinct (concat (map expandedIds Ts)) \<and>
        set (concat (map expandedIds Ts)) \<subseteq> P' - P)"
proof (induction tweets conv P t and tweets conv P ks rule: attachChildren_attachEach.induct)
  case (1 tweets conv P t)
  show ?case
  proof (cases "tweetId (props t) \<in> P")
    case True
    then show ?thesis using "1.prems" by (simp add: expandedIds_leaf)
  next
    case False
    show ?thesis
    proof (cases "filter (repliesTo t) conv")
      case Nil
      then show ?thesis using False "1.prems" by (auto simp: expandedIds_leaf)
    next
      case (Cons child rest)
      obtain cs P1 where e: "attachEach tweets conv (insert (tweetId (props t)) P) (child # rest) = (cs, P1)"
        by fastforce
      from "1.IH" [OF False Cons] e
      have ih: "insert (tweetId (props t)) P \<subseteq> P1" "distinct (concat (map expandedIds cs))"
        "set (concat (map expandedIds cs)) \<subseteq> P1 - insert (tweetId (props t)) P"
        by auto
      have res: "attachChildren tweets conv P t = (Tweet (props t) (repliedTo t) (Some cs), P1)"
        using False Cons e by simp
      show ?thesis unfolding res using ih False
        by (auto simp: expandedIds_node)
    qed
  qed
next
  case (2 tweets conv P)
  then show ?case by simp
next
  case (3 tweets conv P child rest)
  obtain c P1 where a: "attachChildren tweets conv P (copyOf tweets (tweetId (props child))) = (c, P1)"
    by fastforce
  obtain cs P2 where b: "attachEach tweets conv P1 rest = (cs, P2)" by fastforce
  from "3.IH"(1) [OF copyOf_children] a
  have 1: "P \<subseteq> P1" "distinct (expandedIds c)" "set (expandedIds c) \<subseteq> P1 - P" by auto
  from "3.IH"(2) [OF a [symmetric]] b
  have 2: "P1 \<subseteq> P2" "distinct (concat (map expandedIds cs))"
    "set (concat (map expandedIds cs)) \<subseteq> P2 - P1" by auto
  have res: "attachEach tweets conv P (child # rest) = (c # cs, P2)" using a b by simp
  show ?case unfolding res using 1 2 by auto
qed

lemma processConversation_expanded:
  "distinct (concat (map expandedIds (processConversation tweets conv)))"
  using attach_expanded(2) [where tweets = tweets and conv = conv and P = "{}"
      and ks = "filter (isRootIn conv) conv"]
  by (auto simp: processConversation_def split: prod.splits)

lemma find_unique:
  "distinct (map f xs) \<Longrightarrow> x \<in> set xs \<Longrightarrow> find (\<lambda>y. f y = f x) xs = Some x"
  by (induction xs) (auto simp: image_iff)

lemma copyOf_member:
  assumes "wellFormedIds tweets" "t \<in> set tweets"
  shows "copyOf tweets (tweetId (props t)) = Tweet (props t) (repliedTo t) (Some [])"
proof -
  from assms have d: "distinct (map (\<lambda>t. tweetId (props t)) (rev tweets))"
    by (simp add: wellFormedIds_def idsOf_def distinct_rev rev_map [symmetric])
  from assms have tr: "truthy (tweetId (props t))"
    by (auto simp: wellFormedIds_def list_all_iff)
  have "find (\<lambda>y. tweetId (props y) = tweetId (props t)) (rev tweets) = Some t"
    using find_unique [OF d, of t] assms(2) by simp
  then show ?thesis using tr by (simp add: copyOf_def threadMapGet_def withNoChildren_def)
qed

lemma isRootIn_props: "props a = props b \<Longrightarrow> isRootIn conv a = isRootIn conv b"
  by (simp add: isRootIn_def notAReply_def)

lemma attachable_props: "props a = props b \<Longrightarrow> attachable conv P a = attachable conv P b"
  by (simp add: attachable_def isRootIn_props [of a b])

lemma repliesTo_props: "props a = props b \<Longrightarrow> repliesTo a = repliesTo b"
  by (auto simp: repliesTo_def fun_eq_iff)

lemma nodeIds_leaf: "children t = Some [] \<Longrightarrow> nodeIds t = [tweetId (props t)]"
  by (simp add: nodeIds_def nodesOf_leaf)

lemma nodeIds_node:
  "nodeIds (Tweet p r (Some cs)) = tweetId p # concat (map nodeIds cs)"
  by (simp add: nodeIds_def [abs_def] map_concat comp_def)

lemma nodeIds_root: "tweetId (props T) \<in> set (nodeIds T)"
  using nodesOf_self [of T] by (auto simp: nodeIds_def)

lemma closed_insert:
  assumes "closedUnderParents conv P" "attachable conv P t" "distinct (idsOf conv)"
  shows "closedUnderParents conv (insert (tweetId (props t)) P)"
  unfolding closedUnderParents_def
proof (intro ballI impI)
  fix c assume c: "c \<in> set conv" "tweetId (props c) \<in> insert (tweetId (props t)) P"
  show "isRootIn conv c \<or> inReplyToId (props c) \<in> insert (tweetId (props t)) P"
  proof (cases "tweetId (props c) \<in> P")
    case True
    with assms(1) c(1) show ?thesis by (auto simp: closedUnderParents_def)
  next
    case False
    with c(2) have e: "tweetId (props c) = tweetId (props t)" by simp
    from assms(2) obtain c' where c': "c' \<in> set conv" "props c' = props t"
      by (auto simp: attachable_def)
    with e c(1) assms(3) have "c = c'"
      by (auto simp: idsOf_def distinct_map inj_on_def)
    with c' have "props c = props t" by simp
    with assms(2) show ?thesis
      by (auto simp: attachable_def isRootIn_props [of c t])
  qed
qed

lemma kids_attachable:
  assumes cl: "closedUnderParents conv P"
    and at: "attachable conv P t"
    and d: "distinct (idsOf conv)"
    and tr: "list_all (\<lambda>t. truthy (tweetId (props t))) conv"
    and fl: "repliesFlagged conv"
    and k: "k \<in> set (filter (repliesTo t) conv)"
  shows "attachable conv (insert (tweetId (props t)) P) k"
proof -
  from k have kc: "k \<in> set conv" and r: "inReplyToId (props k) = tweetId (props t)"
    and ne: "tweetId (props k) \<noteq> tweetId (props t)"
    by (auto simp: repliesTo_def)
  from at obtain c where c: "c \<in> set conv" "props c = props t" by (auto simp: attachable_def)
  from c tr have trt: "truthy (tweetId (props t))" by (auto simp: list_all_iff)
  from c have "tweetId (props c) \<in> (\<lambda>c. tweetId (props c)) ` set conv" by (intro imageI)
  with c have tin: "tweetId (props t) \<in> set (map (\<lambda>c. tweetId (props c)) conv)" by simp
  have notroot: "\<not> isRootIn conv k"
  proof -
    from fl kc r trt have "isReply (props k) = Some True"
      by (auto simp: repliesFlagged_def list_all_iff)
    with r trt tin show ?thesis by (simp add: isRootIn_def notAReply_def)
  qed
  have "tweetId (props k) \<notin> P"
  proof
    assume "tweetId (props k) \<in> P"
    with cl kc notroot have "inReplyToId (props k) \<in> P" by (auto simp: closedUnderParents_def)
    with r at show False by (simp add: attachable_def)
  qed
  with kc r ne show ?thesis by (auto simp: attachable_def)
qed

lemma attachable_copy: "attachable conv P t \<Longrightarrow> \<exists>c\<in>set conv. props t = props c"
proof -
  assume "attachable conv P t"
  then obtain c where "c \<in> set conv" "props c = props t" by (auto simp: attachable_def)
  then have "c \<in> set conv" "props t = props c" by simp_all
  then show ?thesis by (rule bexI [rotated])
qed

lemma builtFrom_Nil: "closedUnderParents conv P \<Longrightarrow> builtFrom conv P [] [] P"
  by (simp add: builtFrom_def)

lemma builtFrom_leaf:
  assumes "closedUnderParents conv P" "attachable conv P t" "distinct (idsOf conv)"
    "children t = Some []"
  shows "builtFrom conv P [t] [t] (insert (tweetId (props t)) P)"
proof -
  have "linked t" using assms(4) by (simp add: linked_def childrenOf_def)
  moreover have "copiesOf conv t"
    using attachable_copy [OF assms(2)] assms(4) by (simp add: copiesOf_def nodesOf_leaf)
  moreover have "tweetId (props t) \<notin> P" using assms(2) by (simp add: attachable_def)
  ultimately show ?thesis
    using closed_insert [OF assms(1,2,3)] assms(4)
    by (auto simp: builtFrom_def nodeIds_leaf)
qed

lemma builtFrom_node:
  assumes at: "attachable conv P t"
    and ch: "children t = Some []"
    and kids: "\<forall>k\<in>set ks. inReplyToId (props k) = tweetId (props t)"
    and b: "builtFrom conv (insert (tweetId (props t)) P) ks cs P'"
  shows "builtFrom conv P [t] [Tweet (props t) (repliedTo t) (Some cs)] P'"
proof -
  let ?T = "Tweet (props t) (repliedTo t) (Some cs)"
  let ?i = "tweetId (props t)"
  from b have P': "P' = insert ?i P \<union> set (concat (map nodeIds cs))"
    and d: "distinct (concat (map nodeIds cs))"
    and dj: "set (concat (map nodeIds cs)) \<inter> insert ?i P = {}"
    and cl: "closedUnderParents conv P'"
    and pr: "map props cs = map props ks"
    and each: "\<forall>T\<in>set cs. linked T \<and> copiesOf conv T"
    by (auto simp: builtFrom_def)
  have ids: "nodeIds ?T = ?i # concat (map nodeIds cs)" by (simp add: nodeIds_node)
  have 1: "P' = P \<union> set (concat (map nodeIds [?T]))" using P' ids by auto
  have 2: "distinct (concat (map nodeIds [?T]))" using d dj ids by auto
  have ni: "?i \<notin> P" using at by (simp add: attachable_def)
  have 3: "set (concat (map nodeIds [?T])) \<inter> P = {}" using dj ids ni by auto
  have roots: "\<forall>c\<in>set cs. inReplyToId (props c) = ?i"
  proof
    fix c assume "c \<in> set cs"
    then obtain j where j: "j < length cs" "c = cs ! j" by (auto simp: in_set_conv_nth)
    from pr have len: "length cs = length ks" by (metis length_map)
    from pr j len have "props (cs ! j) = props (ks ! j)"
      by (metis nth_map)
    moreover from j len have "ks ! j \<in> set ks" by simp
    ultimately show "inReplyToId (props c) = ?i" using kids j by simp
  qed
  have lk: "linked ?T"
    unfolding linked_def
  proof
    fix n assume "n \<in> set (concat (map nodesOf (childrenOf ?T)))"
    then obtain c where c: "c \<in> set cs" "n \<in> set (nodesOf c)"
      by (auto simp: childrenOf_def)
    show "inReplyToId (props n) \<in> set (nodeIds ?T)"
    proof (cases "n \<in> set (concat (map nodesOf (childrenOf c)))")
      case True
      with each c(1) have "inReplyToId (props n) \<in> set (nodeIds c)" by (auto simp: linked_def)
      with c(1) show ?thesis unfolding ids by auto
    next
      case False
      with c(2) have "n = c" by (cases c) (auto simp: childrenOf_def split: option.splits)
      with roots c(1) show ?thesis unfolding ids by simp
    qed
  qed
  have cp: "copiesOf conv ?T"
    using attachable_copy [OF at] each by (auto simp: copiesOf_def)
  show ?thesis
    unfolding builtFrom_def using 1 2 3 cl lk cp by simp
qed

lemma nodesOf_unfold: "nodesOf T = T # concat (map nodesOf (childrenOf T))"
  by (cases T) (simp add: childrenOf_def split: option.splits)

lemma builtFrom_Cons:
  assumes "builtFrom conv P [k] [T] P1" "builtFrom conv P1 ks Ts P2"
  shows "builtFrom conv P (k # ks) (T # Ts) P2"
  using assms unfolding builtFrom_def by auto

lemma copiesOf_ids:
  assumes "copiesOf conv T" "i \<in> set (nodeIds T)"
  shows "\<exists>c\<in>set conv. tweetId (props c) = i"
proof -
  from assms(2) obtain n where n: "n \<in> set (nodesOf T)" "tweetId (props n) = i"
    by (auto simp: nodeIds_def)
  with assms(1) obtain c where "c \<in> set conv" "props n = props c" by (auto simp: copiesOf_def)
  with n show ?thesis by auto
qed

lemma rest_attachable:
  assumes b: "builtFrom conv P [k] [T] P1"
    and at: "attachable conv P k'"
    and ne: "tweetId (props k') \<noteq> tweetId (props k)"
    and d: "distinct (idsOf conv)"
    and tr: "list_all (\<lambda>t. truthy (tweetId (props t))) conv"
    and fl: "repliesFlagged conv"
  shows "attachable conv P1 k'"
proof -
  from b have P1: "P1 = P \<union> set (nodeIds T)" and dj: "set (nodeIds T) \<inter> P = {}"
    and pk: "props T = props k" and lk: "linked T" and cp: "copiesOf conv T"
    by (auto simp: builtFrom_def)
  from at obtain c' where c': "c' \<in> set conv" "props c' = props k'" by (auto simp: attachable_def)
  have notin: "tweetId (props k') \<notin> set (nodeIds T)"
  proof
    assume "tweetId (props k') \<in> set (nodeIds T)"
    then obtain n where n: "n \<in> set (nodesOf T)" "tweetId (props n) = tweetId (props k')"
      by (auto simp: nodeIds_def)
    from cp n(1) obtain c where c: "c \<in> set conv" "props n = props c" by (auto simp: copiesOf_def)
    from c c' n(2) d have "c = c'" by (auto simp: idsOf_def distinct_map inj_on_def)
    with c c' have pn: "props n = props k'" by simp
    from n(1) have "n = T \<or> n \<in> set (concat (map nodesOf (childrenOf T)))"
      by (subst (asm) nodesOf_unfold) auto
    then show False
    proof
      assume "n = T"
      with pn pk ne show False by simp
    next
      assume "n \<in> set (concat (map nodesOf (childrenOf T)))"
      with lk have "inReplyToId (props n) \<in> set (nodeIds T)" by (auto simp: linked_def)
      with pn have r: "inReplyToId (props k') \<in> set (nodeIds T)" by simp
      from copiesOf_ids [OF cp r] obtain p where p: "p \<in> set conv" "tweetId (props p) = inReplyToId (props k')"
        by auto
      from p tr have trr: "truthy (inReplyToId (props k'))" by (auto simp: list_all_iff)
      from fl c' trr have "isReply (props k') = Some True"
        by (auto simp: repliesFlagged_def list_all_iff)
      moreover from p have "inReplyToId (props k') \<in> set (map (\<lambda>c. tweetId (props c)) conv)"
        by (metis (no_types, lifting) image_eqI list.set_map)
      ultimately have "\<not> isRootIn conv k'" using trr by (simp add: isRootIn_def notAReply_def)
      with at have "inReplyToId (props k') \<in> P" by (simp add: attachable_def)
      with r dj show False by auto
    qed
  qed
  with at P1 show ?thesis by (auto simp: attachable_def)
qed

lemma attach_builds:
  "wellFormedIds tweets \<Longrightarrow> set conv \<subseteq> set tweets \<Longrightarrow> distinct (idsOf conv) \<Longrightarrow>
   repliesFlagged conv \<Longrightarrow> closedUnderParents conv P \<Longrightarrow> attachable conv P t \<Longrightarrow>
   children t = Some [] \<Longrightarrow>
     (case attachChildren tweets conv P t of (T, P') \<Rightarrow> builtFrom conv P [t] [T] P')"
  "wellFormedIds tweets \<Longrightarrow> set conv \<subseteq> set tweets \<Longrightarrow> distinct (idsOf conv) \<Longrightarrow>
   repliesFlagged conv \<Longrightarrow> closedUnderParents conv P \<Longrightarrow>
   (\<forall>k\<in>set ks. k \<in> set conv \<and> attachable conv P k) \<Longrightarrow> distinct (idsOf ks) \<Longrightarrow>
     (case attachEach tweets conv P ks of (Ts, P') \<Rightarrow> builtFrom conv P ks Ts P')"
proof (induction tweets conv P t and tweets conv P ks rule: attachChildren_attachEach.induct)
  case (1 tweets conv P t)
  note wf = "1.prems"(1) and sub = "1.prems"(2) and d = "1.prems"(3) and fl = "1.prems"(4)
    and cl = "1.prems"(5) and at = "1.prems"(6) and ch = "1.prems"(7)
  from wf sub have tr: "list_all (\<lambda>t. truthy (tweetId (props t))) conv"
    by (auto simp: wellFormedIds_def list_all_iff)
  from at have notin: "tweetId (props t) \<notin> P" by (simp add: attachable_def)
  show ?case
  proof (cases "filter (repliesTo t) conv")
    case Nil
    with notin have "attachChildren tweets conv P t = (t, insert (tweetId (props t)) P)" by simp
    with builtFrom_leaf [OF cl at d ch] show ?thesis by simp
  next
    case (Cons child rest)
    let ?P1 = "insert (tweetId (props t)) P"
    obtain cs P2 where e: "attachEach tweets conv ?P1 (child # rest) = (cs, P2)" by fastforce
    have kids: "\<forall>k\<in>set (child # rest). k \<in> set conv \<and> attachable conv ?P1 k"
    proof
      fix k assume "k \<in> set (child # rest)"
      then have k: "k \<in> set (filter (repliesTo t) conv)" using Cons by simp
      then have "k \<in> set conv" by simp
      with kids_attachable [OF cl at d tr fl k] show "k \<in> set conv \<and> attachable conv ?P1 k" by simp
    qed
    have dk: "distinct (idsOf (child # rest))"
      using d Cons [symmetric] by (simp add: idsOf_def distinct_map_filter)
    have "builtFrom conv ?P1 (child # rest) cs P2"
      using "1.IH" [OF notin Cons wf sub d fl closed_insert [OF cl at d] kids dk] e by simp
    moreover have "\<forall>k\<in>set (child # rest). inReplyToId (props k) = tweetId (props t)"
      using Cons [symmetric] by (auto simp: repliesTo_def)
    ultimately have "builtFrom conv P [t] [Tweet (props t) (repliedTo t) (Some cs)] P2"
      using builtFrom_node [OF at ch] by blast
    moreover have "attachChildren tweets conv P t = (Tweet (props t) (repliedTo t) (Some cs), P2)"
      using notin Cons e by simp
    ultimately show ?thesis by simp
  qed
next
  case (2 tweets conv P)
  then show ?case by (simp add: builtFrom_Nil)
next
  case (3 tweets conv P child rest)
  note wf = "3.prems"(1) and sub = "3.prems"(2) and d = "3.prems"(3) and fl = "3.prems"(4)
    and cl = "3.prems"(5) and ks = "3.prems"(6) and dk = "3.prems"(7)
  from wf sub have tr: "list_all (\<lambda>t. truthy (tweetId (props t))) conv"
    by (auto simp: wellFormedIds_def list_all_iff)
  let ?node = "copyOf tweets (tweetId (props child))"
  from ks sub have cin: "child \<in> set tweets" by auto
  have node: "?node = Tweet (props child) (repliedTo child) (Some [])"
    by (rule copyOf_member [OF wf cin])
  then have pn: "props ?node = props child" by simp
  from ks have atc: "attachable conv P child" by simp
  then have atn: "attachable conv P ?node" using attachable_props [OF pn] by simp
  obtain T P1 where a: "attachChildren tweets conv P ?node = (T, P1)" by fastforce
  obtain Ts P2 where b: "attachEach tweets conv P1 rest = (Ts, P2)" by fastforce
  have bn: "builtFrom conv P [?node] [T] P1"
    using "3.IH"(1) [OF wf sub d fl cl atn copyOf_children] a by simp
  then have bc: "builtFrom conv P [child] [T] P1" by (auto simp: builtFrom_def pn)
  have clo: "closedUnderParents conv P1" using bn unfolding builtFrom_def by blast
  have rest: "\<forall>k\<in>set rest. k \<in> set conv \<and> attachable conv P1 k"
  proof
    fix k assume k: "k \<in> set rest"
    with ks have kc: "k \<in> set conv" and atk: "attachable conv P k" by auto
    from dk have "tweetId (props child) \<notin> (\<lambda>t. tweetId (props t)) ` set rest"
      by (simp add: idsOf_def)
    moreover from k have "tweetId (props k) \<in> (\<lambda>t. tweetId (props t)) ` set rest"
      by (rule imageI)
    ultimately have "tweetId (props k) \<noteq> tweetId (props child)" by metis
    from rest_attachable [OF bc atk this d tr fl] kc
    show "k \<in> set conv \<and> attachable conv P1 k" by simp
  qed
  from dk have dr: "distinct (idsOf rest)" by (simp add: idsOf_def)
  have "builtFrom conv P1 rest Ts P2"
    using "3.IH"(2) [OF a [symmetric] wf sub d fl clo rest dr] b by simp
  with bc have "builtFrom conv P (child # rest) (T # Ts) P2" by (rule builtFrom_Cons)
  moreover have "attachEach tweets conv P (child # rest) = (T # Ts, P2)" using a b by simp
  ultimately show ?case by simp
qed

lemma distinct_concat_map_keys:
  assumes "distinct xs"
    and "\<And>x. x \<in> set xs \<Longrightarrow> distinct (f x)"
    and "\<And>x. x \<in> set xs \<Longrightarrow> set (f x) \<subseteq> K x"
    and "\<And>x y. x \<in> set xs \<Longrightarrow> y \<in> set xs \<Longrightarrow> x \<noteq> y \<Longrightarrow> K x \<inter> K y = {}"
  shows "distinct (concat (map f xs))"
  using assms
proof (induction xs)
  case Nil
  then show ?case by simp
next
  case (Cons x xs)
  have "distinct (concat (map f xs))"
    by (rule Cons.IH) (use Cons.prems in auto)
  moreover have "distinct (f x)" using Cons.prems(2) by simp
  moreover have "set (f x) \<inter> set (concat (map f xs)) = {}"
  proof -
    have "set (f x) \<inter> set (f y) = {}" if "y \<in> set xs" for y
    proof -
      from that Cons.prems(1) have "x \<noteq> y" by auto
      with Cons.prems(4) [of x y] that have "K x \<inter> K y = {}" by simp
      with Cons.prems(3) [of x] Cons.prems(3) [of y] that show ?thesis by auto
    qed
    then show ?thesis by auto
  qed
  ultimately show ?case by simp
qed

lemma processConversation_distinct:
  assumes wf: "wellFormedIds tweets" and sub: "set conv \<subseteq> set tweets"
    and d: "distinct (idsOf conv)" and fl: "repliesFlagged conv"
  shows "distinct (concat (map nodeIds (processConversation tweets conv)))"
    and "set (concat (map nodeIds (processConversation tweets conv))) \<subseteq> set (idsOf conv)"
proof -
  let ?roots = "filter (isRootIn conv) conv"
  obtain Ts P' where e: "attachEach tweets conv {} ?roots = (Ts, P')" by fastforce
  have cl: "closedUnderParents conv {}" by (simp add: closedUnderParents_def)
  have ks: "\<forall>k\<in>set ?roots. k \<in> set conv \<and> attachable conv {} k"
    by (auto simp: attachable_def)
  have dk: "distinct (idsOf ?roots)" using d by (simp add: idsOf_def distinct_map_filter)
  from attach_builds(2) [OF wf sub d fl cl ks dk] e
  have b: "builtFrom conv {} ?roots Ts P'" by simp
  have pc: "processConversation tweets conv = Ts" using e by (simp add: processConversation_def)
  from b show "distinct (concat (map nodeIds (processConversation tweets conv)))"
    unfolding pc by (simp add: builtFrom_def)
  show "set (concat (map nodeIds (processConversation tweets conv))) \<subseteq> set (idsOf conv)"
  proof
    fix i assume "i \<in> set (concat (map nodeIds (processConversation tweets conv)))"
    then obtain T where T: "T \<in> set Ts" "i \<in> set (nodeIds T)" unfolding pc by auto
    with b have "copiesOf conv T" by (simp add: builtFrom_def)
    from copiesOf_ids [OF this T(2)] show "i \<in> set (idsOf conv)" by (auto simp: idsOf_def)
  qed
qed

lemma wellFormedIds_eq:
  assumes "wellFormedIds tweets" "a \<in> set tweets" "b \<in> set tweets"
    "tweetId (props a) = tweetId (props b)"
  shows "a = b"
  using assms by (auto simp: wellFormedIds_def idsOf_def distinct_map inj_on_def)

lemma repliesFlagged_subset: "repliesFlagged tweets \<Longrightarrow> set conv \<subseteq> set tweets \<Longrightarrow> repliesFlagged conv"
  by (auto simp: repliesFlagged_def list_all_iff)

lemma placeOrphan_ids:
  assumes "wellFormedIds tweets" "t \<in> set tweets"
  shows "distinct (concat (map nodeIds (placeOrphan tweets t)))"
    and "set (concat (map nodeIds (placeOrphan tweets t))) \<subseteq> {tweetId (props t)}"
  using copyOf_member [OF assms]
  by (auto simp: placeOrphan_def nodeIds_leaf split: option.splits)

lemma concat_nodeIds_concat:
  "concat (map nodeIds (concat (map g xs))) = concat (map (\<lambda>x. concat (map nodeIds (g x))) xs)"
  by (induction xs) auto

lemma organize_distinct:
  assumes wf: "wellFormedIds tweets" and fl: "repliesFlagged tweets"
  shows "distinct (concat (map nodeIds (organizeTweetsIntoThreads tweets)))"
proof -
  let ?G = "\<lambda>c. concat (map nodeIds (processConversation tweets (membersOf c tweets)))"
  let ?O = "\<lambda>t. concat (map nodeIds (placeOrphan tweets t))"
  have dt: "distinct tweets" using wf by (auto simp: wellFormedIds_def idsOf_def distinct_map)
  have dm: "distinct (idsOf (membersOf c tweets))" for c
    using wf by (simp add: wellFormedIds_def idsOf_def membersOf_def distinct_map_filter)
  have gd: "distinct (?G c)" and gs: "set (?G c) \<subseteq> set (idsOf (membersOf c tweets))" for c
    using processConversation_distinct [OF wf membersOf_subset dm repliesFlagged_subset [OF fl membersOf_subset]]
    by blast+
  have forest: "concat (map nodeIds (organizeTweetsIntoThreads tweets))
      = concat (map ?G (conversationKeys tweets)) @ concat (map ?O (orphanTweetsOf tweets))"
    by (simp add: organizeTweetsIntoThreads_def conversationMapOf_char concat_nodeIds_concat comp_def)
  have 1: "distinct (concat (map ?G (conversationKeys tweets)))"
  proof (rule distinct_concat_map_keys [where K = "\<lambda>c. set (idsOf (membersOf c tweets))"])
    show "distinct (conversationKeys tweets)" by (simp add: conversationKeys_def)
    show "distinct (?G c)" for c by (rule gd)
    show "set (?G c) \<subseteq> set (idsOf (membersOf c tweets))" for c by (rule gs)
    show "set (idsOf (membersOf x tweets)) \<inter> set (idsOf (membersOf y tweets)) = {}" if "x \<noteq> y" for x y
    proof (rule ccontr)
      assume "set (idsOf (membersOf x tweets)) \<inter> set (idsOf (membersOf y tweets)) \<noteq> {}"
      then obtain a b where ab: "a \<in> set (membersOf x tweets)" "b \<in> set (membersOf y tweets)"
        "tweetId (props a) = tweetId (props b)"
        by (auto simp: idsOf_def)
      then have "a = b" using wellFormedIds_eq [OF wf] membersOf_subset by blast
      with ab that show False by (auto simp: membersOf_def)
    qed
  qed
  have 2: "distinct (concat (map ?O (orphanTweetsOf tweets)))"
  proof (rule distinct_concat_map_keys [where K = "\<lambda>t. {tweetId (props t)}"])
    show "distinct (orphanTweetsOf tweets)" using dt by (simp add: orphanTweetsOf_def)
    show "distinct (?O t)" if "t \<in> set (orphanTweetsOf tweets)" for t
      using that placeOrphan_ids(1) [OF wf] by (simp add: orphanTweetsOf_def)
    show "set (?O t) \<subseteq> {tweetId (props t)}" if "t \<in> set (orphanTweetsOf tweets)" for t
      using that placeOrphan_ids(2) [OF wf] by (simp add: orphanTweetsOf_def)
    show "{tweetId (props x)} \<inter> {tweetId (props y)} = {}"
      if "x \<in> set (orphanTweetsOf tweets)" "y \<in> set (orphanTweetsOf tweets)" "x \<noteq> y" for x y
      using that wellFormedIds_eq [OF wf, of x y] by (auto simp: orphanTweetsOf_def)
  qed
  have 3: "set (concat (map ?G (conversationKeys tweets))) \<inter> set (concat (map ?O (orphanTweetsOf tweets))) = {}"
  proof (rule ccontr)
    assume "\<not> ?thesis"
    then obtain i c t where i: "c \<in> set (conversationKeys tweets)" "i \<in> set (?G c)"
      "t \<in> set (orphanTweetsOf tweets)" "i \<in> set (?O t)"
      by auto
    from i(2) gs obtain a where a: "a \<in> set (membersOf c tweets)" "tweetId (props a) = i"
      by (auto simp: idsOf_def)
    from i(3) have tt: "t \<in> set tweets" "\<not> truthy (conversationId (props t))"
      by (auto simp: orphanTweetsOf_def)
    from i(4) placeOrphan_ids(2) [OF wf tt(1)] have "tweetId (props t) = i" by auto
    with a have "a = t" using wellFormedIds_eq [OF wf] membersOf_subset tt(1) by blast
    moreover from i(1) have "c \<noteq> []" by (auto simp: conversationKeys_set keyOf_Some)
    ultimately show False using a(1) tt(2) by (auto simp: membersOf_def truthy_def)
  qed
  show ?thesis unfolding forest using 1 2 3 by simp
qed

lemma cycle_has_no_root:
  assumes "inReplyToId (props a) = tweetId (props b)" "inReplyToId (props b) = tweetId (props a)"
    "isReply (props a) = Some True" "isReply (props b) = Some True"
    "truthy (tweetId (props a))" "truthy (tweetId (props b))"
  shows "processConversation tweets [a, b] = []"
  using assms by (simp add: processConversation_def isRootIn_def notAReply_def)

text \<open>
  Claim C5 (as amended). The builder is a total function without an error branch: for every
  input it terminates and raises nothing. For every input, within each conversation group
  an id is expanded at most once: the ids of the nodes that carry children are pairwise
  distinct, so a branch that meets a processed id stops growing. When the ids of the input
  are truthy and pairwise distinct and every record that names a reply target is flagged as
  a reply, no id occurs twice among the nodes of the forest: no node is its own descendant
  and no node is attached more than once. A group that consists of two flagged replies to
  each other has no root, and its forest is empty.
\<close>

theorem cycle_safety:
  "list_all (\<lambda>(c, conv). distinct (concat (map expandedIds (processConversation tweets conv))))
     (conversationMapOf tweets)
   \<and> (wellFormedIds tweets \<and> repliesFlagged tweets \<longrightarrow>
        distinct (concat (map nodeIds (organizeTweetsIntoThreads tweets))))
   \<and> (inReplyToId (props a) = tweetId (props b) \<and> inReplyToId (props b) = tweetId (props a) \<and>
      isReply (props a) = Some True \<and> isReply (props b) = Some True \<and>
      truthy (tweetId (props a)) \<and> truthy (tweetId (props b)) \<longrightarrow>
        processConversation tweets [a, b] = [])"
proof -
  have 1: "list_all (\<lambda>(c, conv). distinct (concat (map expandedIds (processConversation tweets conv))))
     (conversationMapOf tweets)"
    by (simp add: list_all_iff processConversation_expanded split: prod.splits)
  have 2: "wellFormedIds tweets \<and> repliesFlagged tweets \<longrightarrow>
        distinct (concat (map nodeIds (organizeTweetsIntoThreads tweets)))"
    using organize_distinct by blast
  have 3: "inReplyToId (props a) = tweetId (props b) \<and> inReplyToId (props b) = tweetId (props a) \<and>
      isReply (props a) = Some True \<and> isReply (props b) = Some True \<and>
      truthy (tweetId (props a)) \<and> truthy (tweetId (props b)) \<longrightarrow>
        processConversation tweets [a, b] = []"
    using cycle_has_no_root by blast
  from 1 2 3 show ?thesis by blast
qed

theorem cycle_safety_witness:
  "distinct (concat (map nodeIds (organizeTweetsIntoThreads threadOfFour)))
   \<and> map shapeOf (organizeTweetsIntoThreads threadOfFour)
       = [Node (Some ''1'') [Node (Some ''2'') [Node (Some ''3'') []], Node (Some ''4'') []]]
   \<and> processConversation threadOfFour
        [post ''a'' day1 (Some ''c'') (Some ''b''), post ''b'' day2 (Some ''c'') (Some ''a'')] = []"
proof -
  let ?a = "post ''a'' day1 (Some ''c'') (Some ''b'')"
  let ?b = "post ''b'' day2 (Some ''c'') (Some ''a'')"
  have wf: "wellFormedIds threadOfFour \<and> repliesFlagged threadOfFour" by code_simp
  have cyc: "inReplyToId (props ?a) = tweetId (props ?b) \<and> inReplyToId (props ?b) = tweetId (props ?a) \<and>
      isReply (props ?a) = Some True \<and> isReply (props ?b) = Some True \<and>
      truthy (tweetId (props ?a)) \<and> truthy (tweetId (props ?b))"
    by (simp add: post_def truthy_def)
  have sh: "map shapeOf (organizeTweetsIntoThreads threadOfFour)
       = [Node (Some ''1'') [Node (Some ''2'') [Node (Some ''3'') []], Node (Some ''4'') []]]"
    by code_simp
  from cycle_safety [of threadOfFour ?a ?b] wf cyc sh show ?thesis by blast
qed

text \<open>
  Claim C5 as stated fails: record a names b as its reply target and is not flagged as a
  reply, record b is a flagged reply to a, both in conversation c. The builder makes a a
  root, attaches b below it and a copy of a below b: a is its own descendant and occurs
  twice.
\<close>

theorem cycle_safety_counterexample:
  "map shapeOf (organizeTweetsIntoThreads
      [unflaggedPost ''a'' day1 (Some ''c'') (Some ''b''), post ''b'' day2 (Some ''c'') (Some ''a'')])
     = [Node (Some ''a'') [Node (Some ''b'') [Node (Some ''a'') []]]]"
  by code_simp


subsection \<open>Ordering\<close>

lemma timeOf_stamp: "timeOf parseDate t = Some x \<Longrightarrow> stamp parseDate t = x"
  by (auto simp: timeOf_def stamp_def stampOf_def split: option.splits)

lemma compareByTime_valid:
  assumes "timeOf parseDate a \<noteq> None" "timeOf parseDate b \<noteq> None"
  shows "compareByTime parseDate a b = stamp parseDate a - stamp parseDate b"
  using assms by (auto simp: compareByTime_def timeOf_stamp split: option.splits)

lemma insertSorted_insort:
  assumes "\<And>y. y \<in> set ys \<Longrightarrow> cmp x y = key x - key y"
  shows "insertSorted cmp x ys = insort_key key x ys"
  using assms by (induction ys) auto

lemma sortWith_sort_key:
  assumes "\<And>x y. x \<in> set xs \<Longrightarrow> y \<in> set xs \<Longrightarrow> cmp x y = key x - key y"
  shows "sortWith cmp xs = sort_key key xs"
  using assms
proof (induction xs)
  case Nil
  then show ?case by simp
next
  case (Cons x xs)
  have "sortWith cmp xs = sort_key key xs" by (rule Cons.IH) (use Cons.prems in auto)
  moreover have "insertSorted cmp x (sort_key key xs) = insort_key key x (sort_key key xs)"
    by (rule insertSorted_insort) (use Cons.prems in auto)
  ultimately show ?case by (simp add: sortWith_Cons)
qed

lemma sortWith_time:
  assumes "validDates parseDate xs"
  shows "sortWith (compareByTime parseDate) xs = sort_key (stamp parseDate) xs"
  by (rule sortWith_sort_key) (use assms in \<open>auto simp: validDates_def list_all_iff compareByTime_valid\<close>)

lemma stableSorted_sort_key: "stableSorted key xs (sort_key key xs)"
  by (simp add: stableSorted_def sort_key_stable)

lemma map_insort_key: "map g (insort_key (\<lambda>x. f (g x)) x xs) = insort_key f (g x) (map g xs)"
  by (induction xs) auto

lemma map_sort_key: "map g (sort_key (\<lambda>x. f (g x)) xs) = sort_key f (map g xs)"
  by (induction xs) (auto simp: map_insort_key)

lemma olderOf_valid:
  assumes "timeOf parseDate a \<noteq> None" "timeOf parseDate b \<noteq> None"
  shows "timeOf parseDate (olderOf parseDate a b) \<noteq> None"
    and "stamp parseDate (olderOf parseDate a b) = min (stamp parseDate a) (stamp parseDate b)"
  using assms by (auto simp: olderOf_def timeOf_stamp split: option.splits)

lemma foldl_olderOf:
  assumes "timeOf parseDate t \<noteq> None" "validDates parseDate rest"
  shows "timeOf parseDate (foldl (olderOf parseDate) t rest) \<noteq> None
       \<and> stamp parseDate (foldl (olderOf parseDate) t rest) = Min (set (map (stamp parseDate) (t # rest)))"
  using assms
proof (induction rest arbitrary: t)
  case Nil
  then show ?case by simp
next
  case (Cons r rest)
  from Cons.prems have v: "timeOf parseDate r \<noteq> None" "validDates parseDate rest"
    by (simp_all add: validDates_def)
  note o = olderOf_valid [OF Cons.prems(1) v(1)]
  from Cons.IH [OF o(1) v(2)] o(2)
  have "timeOf parseDate (foldl (olderOf parseDate) (olderOf parseDate t r) rest) \<noteq> None"
    and "stamp parseDate (foldl (olderOf parseDate) (olderOf parseDate t r) rest)
         = Min (insert (min (stamp parseDate t) (stamp parseDate r)) (set (map (stamp parseDate) rest)))"
    by simp_all
  moreover have "Min (insert (min (stamp parseDate t) (stamp parseDate r)) (set (map (stamp parseDate) rest)))
      = Min (set (map (stamp parseDate) (t # r # rest)))"
  proof (cases "rest = []")
    case True
    then show ?thesis by simp
  next
    case False
    then show ?thesis by (simp add: min.assoc Min_insert)
  qed
  ultimately show ?case by simp
qed

lemma oldestTime_valid:
  assumes "ts \<noteq> []" "validDates parseDate ts"
  shows "oldestTime parseDate ts = Some (earliestStamp parseDate ts)"
proof -
  from assms obtain t rest where ts: "ts = t # rest" by (cases ts) auto
  with assms have v: "timeOf parseDate t \<noteq> None" "validDates parseDate rest"
    by (simp_all add: validDates_def)
  from foldl_olderOf [OF v] obtain x where
    x: "timeOf parseDate (foldl (olderOf parseDate) t rest) = Some x"
    and m: "stamp parseDate (foldl (olderOf parseDate) t rest) = Min (set (map (stamp parseDate) (t # rest)))"
    by auto
  from timeOf_stamp [OF x] m show ?thesis
    by (simp add: oldestTime_def ts x earliestStamp_def)
qed

lemma compareGroups_valid:
  assumes "snd a \<noteq> []" "validDates parseDate (snd a)" "snd b \<noteq> []" "validDates parseDate (snd b)"
  shows "compareGroups parseDate a b = earliestStamp parseDate (snd a) - earliestStamp parseDate (snd b)"
  by (simp add: compareGroups_def oldestTime_valid assms)

lemma attach_root_props:
  "props (fst (attachChildren tweets conv P t)) = props t"
  by (cases "filter (repliesTo t) conv") (auto split: prod.splits)

lemma attachEach_props:
  "map props (fst (attachEach tweets conv P ks))
     = map (\<lambda>k. props (copyOf tweets (tweetId (props k)))) ks"
proof (induction ks arbitrary: P)
  case Nil
  then show ?case by simp
next
  case (Cons k ks)
  obtain T P1 where a: "attachChildren tweets conv P (copyOf tweets (tweetId (props k))) = (T, P1)"
    by fastforce
  obtain Ts P2 where b: "attachEach tweets conv P1 ks = (Ts, P2)" by fastforce
  from attach_root_props [of tweets conv P "copyOf tweets (tweetId (props k))"] a
  have "props T = props (copyOf tweets (tweetId (props k)))" by simp
  moreover from Cons.IH [of P1] b
  have "map props Ts = map (\<lambda>k. props (copyOf tweets (tweetId (props k)))) ks" by simp
  ultimately show ?case using a b by simp
qed

lemma attachEach_props_wf:
  assumes "wellFormedIds tweets" "set ks \<subseteq> set tweets"
  shows "map props (fst (attachEach tweets conv P ks)) = map props ks"
proof -
  have "props (copyOf tweets (tweetId (props k))) = props k" if "k \<in> set ks" for k
    using copyOf_member [OF assms(1), of k] that assms(2) by auto
  then show ?thesis by (simp add: attachEach_props)
qed

lemma childrenFrom_leaf: "children t = Some [] \<Longrightarrow> childrenFrom conv t"
  by (simp add: childrenFrom_def childrenOf_def)

lemma attach_childrenFrom:
  "wellFormedIds tweets \<Longrightarrow> set conv \<subseteq> set tweets \<Longrightarrow> children t = Some [] \<Longrightarrow>
     \<forall>n\<in>set (nodesOf (fst (attachChildren tweets conv P t))). childrenFrom conv n"
  "wellFormedIds tweets \<Longrightarrow> set conv \<subseteq> set tweets \<Longrightarrow>
     \<forall>T\<in>set (fst (attachEach tweets conv P ks)). \<forall>n\<in>set (nodesOf T). childrenFrom conv n"
proof (induction tweets conv P t and tweets conv P ks rule: attachChildren_attachEach.induct)
  case (1 tweets conv P t)
  note wf = "1.prems"(1) and sub = "1.prems"(2) and ch = "1.prems"(3)
  show ?case
  proof (cases "tweetId (props t) \<in> P")
    case True
    then show ?thesis using ch by (simp add: nodesOf_leaf childrenFrom_leaf)
  next
    case False
    show ?thesis
    proof (cases "filter (repliesTo t) conv")
      case Nil
      then show ?thesis using False ch by (simp add: nodesOf_leaf childrenFrom_leaf)
    next
      case (Cons child rest)
      obtain cs P1 where e: "attachEach tweets conv (insert (tweetId (props t)) P) (child # rest) = (cs, P1)"
        by fastforce
      let ?T = "Tweet (props t) (repliedTo t) (Some cs)"
      have res: "fst (attachChildren tweets conv P t) = ?T" using False Cons e by simp
      have ih: "\<forall>T\<in>set cs. \<forall>n\<in>set (nodesOf T). childrenFrom conv n"
        using "1.IH" [OF False Cons wf sub] e by simp
      have "set (child # rest) \<subseteq> set tweets" using Cons [symmetric] sub by auto
      from attachEach_props_wf [OF wf this, of conv "insert (tweetId (props t)) P"] e
      have "map props cs = map props (child # rest)" by simp
      moreover have "repliesTo ?T = repliesTo t" by (rule repliesTo_props) simp
      ultimately have "childrenFrom conv ?T"
        using Cons by (simp add: childrenFrom_def childrenOf_def)
      with ih show ?thesis unfolding res by auto
    qed
  qed
next
  case (2 tweets conv P)
  then show ?case by simp
next
  case (3 tweets conv P child rest)
  note wf = "3.prems"(1) and sub = "3.prems"(2)
  obtain T P1 where a: "attachChildren tweets conv P (copyOf tweets (tweetId (props child))) = (T, P1)"
    by fastforce
  obtain Ts P2 where b: "attachEach tweets conv P1 rest = (Ts, P2)" by fastforce
  have 1: "\<forall>n\<in>set (nodesOf T). childrenFrom conv n"
    using "3.IH"(1) [OF wf sub copyOf_children] a by simp
  have 2: "\<forall>T\<in>set Ts. \<forall>n\<in>set (nodesOf T). childrenFrom conv n"
    using "3.IH"(2) [OF a [symmetric] wf sub] b by simp
  show ?case using a b 1 2 by simp
qed

lemma distinct_singleton: "distinct ys \<Longrightarrow> set ys = {c} \<Longrightarrow> ys = [c]"
proof (cases ys)
  case Nil
  assume "set ys = {c}"
  with Nil show ?thesis by simp
next
  case (Cons y ys')
  assume d: "distinct ys" and s: "set ys = {c}"
  from Cons s have y: "y = c" by auto
  from Cons d s y have "set ys' \<subseteq> {c}" "c \<notin> set ys'" by auto
  then have "ys' = []" by (cases ys') auto
  with Cons y show ?thesis by simp
qed

lemma single_conversation:
  assumes "S \<noteq> []" "\<forall>t\<in>set S. conversationId (props t) = Some c" "c \<noteq> []"
  shows "organizeTweetsIntoThreads S = processConversation S S"
proof -
  have k: "keyOf t = Some c" if "t \<in> set S" for t
    using that assms(2,3) by (simp add: keyOf_Some)
  have "set (conversationKeys S) = {c}"
    using assms(1) k unfolding conversationKeys_set by (cases S) auto
  then have keys: "conversationKeys S = [c]"
    by (intro distinct_singleton) (simp_all add: conversationKeys_def)
  have mem: "membersOf c S = S" using assms(2) by (simp add: membersOf_def)
  have orph: "orphanTweetsOf S = []"
    using assms(2,3) by (auto simp: orphanTweetsOf_def truthy_def filter_empty_conv)
  show ?thesis
    by (simp add: organizeTweetsIntoThreads_def conversationMapOf_char keys mem orph)
qed

lemma distinct_map_insort:
  "distinct (map f (insort_key k x xs)) \<longleftrightarrow> f x \<notin> f ` set xs \<and> distinct (map f xs)"
  by (induction xs) (auto simp: set_insort_key)

lemma distinct_map_sort: "distinct (map f (sort_key k xs)) \<longleftrightarrow> distinct (map f xs)"
  by (induction xs) (auto simp: distinct_map_insort)

lemma wellFormedIds_sort: "wellFormedIds xs \<Longrightarrow> wellFormedIds (sort_key k xs)"
  by (simp add: wellFormedIds_def idsOf_def distinct_map_sort list_all_iff)

lemma wellFormedIds_filter: "wellFormedIds xs \<Longrightarrow> wellFormedIds (filter Q xs)"
  by (simp add: wellFormedIds_def idsOf_def distinct_map_filter list_all_iff)

lemma validDates_subset: "validDates parseDate xs \<Longrightarrow> set ys \<subseteq> set xs \<Longrightarrow> validDates parseDate ys"
  by (auto simp: validDates_def list_all_iff)

lemma validDates_props:
  assumes "validDates parseDate xs" "set (map props ys) \<subseteq> set (map props xs)"
  shows "validDates parseDate ys"
  unfolding validDates_def list_all_iff
proof
  fix y assume "y \<in> set ys"
  with assms(2) obtain x where x: "x \<in> set xs" "props x = props y" by force
  then have "timeOf parseDate y = timeOf parseDate x" by (simp add: timeOf_def)
  with x(1) assms(1) show "timeOf parseDate y \<noteq> None" by (simp add: validDates_def list_all_iff)
qed

lemma isRootIn_set: "set A = set B \<Longrightarrow> isRootIn A = isRootIn B"
  by (simp add: isRootIn_def fun_eq_iff)

lemma map_props_sort:
  "map props (sort_key (stamp parseDate) xs) = sort_key (stampOf parseDate) (map props xs)"
  using map_sort_key [of props "stampOf parseDate" xs] by (simp add: stamp_def [abs_def])

lemma map_stamp: "map (stamp parseDate) xs = map (stampOf parseDate) (map props xs)"
  by (simp add: stamp_def)

lemma group_forest:
  assumes wf: "wellFormedIds tweets" and vd: "validDates parseDate tweets"
    and c: "c \<in> set (conversationKeys tweets)"
  defines "M \<equiv> membersOf c tweets"
  defines "trees \<equiv> sortWith (compareByTime parseDate)
                     (organizeTweetsIntoThreads (sortWith (compareByTime parseDate) M))"
  shows "stableSorted (stampOf parseDate) (map props (filter (isRootIn M) M)) (map props trees)"
    and "\<forall>n\<in>set (concat (map nodesOf trees)). childrenOf n = [] \<or>
           stableSorted (stampOf parseDate) (map props (filter (repliesTo n) M)) (map props (childrenOf n))"
proof -
  let ?S = "sort_key (stamp parseDate) M"
  have sub: "set M \<subseteq> set tweets" unfolding M_def by (rule membersOf_subset)
  have vM: "validDates parseDate M" by (rule validDates_subset [OF vd sub])
  have S: "sortWith (compareByTime parseDate) M = ?S" by (rule sortWith_time [OF vM])
  have wfM: "wellFormedIds M" unfolding M_def membersOf_def by (rule wellFormedIds_filter [OF wf])
  have wfS: "wellFormedIds ?S" by (rule wellFormedIds_sort [OF wfM])
  from c obtain t where "t \<in> set tweets" "keyOf t = Some c" by (auto simp: conversationKeys_set)
  then have cne: "c \<noteq> []" and "t \<in> set M" by (auto simp: keyOf_Some M_def membersOf_def)
  then have Sne: "?S \<noteq> []" by (metis empty_iff empty_set set_sort)
  have conv: "\<forall>t\<in>set ?S. conversationId (props t) = Some c" by (simp add: M_def membersOf_def)
  have org: "organizeTweetsIntoThreads ?S = processConversation ?S ?S"
    by (rule single_conversation [OF Sne conv cne])
  let ?roots = "processConversation ?S ?S"
  have rp: "map props ?roots = sort_key (stampOf parseDate) (map props (filter (isRootIn M) M))"
  proof -
    have "map props ?roots = map props (filter (isRootIn ?S) ?S)"
      unfolding processConversation_def by (rule attachEach_props_wf [OF wfS]) auto
    also have "isRootIn ?S = isRootIn M" by (rule isRootIn_set) simp
    also have "filter (isRootIn M) ?S = sort_key (stamp parseDate) (filter (isRootIn M) M)"
      by (rule filter_sort)
    finally show ?thesis by (simp add: map_props_sort)
  qed
  have vr: "validDates parseDate ?roots"
  proof (rule validDates_props [OF vM])
    show "set (map props ?roots) \<subseteq> set (map props M)" unfolding rp by auto
  qed
  have sorted_roots: "sorted (map (stamp parseDate) ?roots)"
    unfolding map_stamp rp by (rule sorted_sort_key)
  have trees: "trees = ?roots"
    unfolding trees_def S org
    by (simp add: sortWith_time [OF vr] sort_key_id_if_sorted [OF sorted_roots])
  show "stableSorted (stampOf parseDate) (map props (filter (isRootIn M) M)) (map props trees)"
    unfolding trees rp by (rule stableSorted_sort_key)
  show "\<forall>n\<in>set (concat (map nodesOf trees)). childrenOf n = [] \<or>
           stableSorted (stampOf parseDate) (map props (filter (repliesTo n) M)) (map props (childrenOf n))"
  proof
    fix n assume "n \<in> set (concat (map nodesOf trees))"
    then obtain T where T: "T \<in> set ?roots" "n \<in> set (nodesOf T)" unfolding trees by auto
    have "\<forall>T\<in>set (fst (attachEach ?S ?S {} (filter (isRootIn ?S) ?S))). \<forall>n\<in>set (nodesOf T). childrenFrom ?S n"
      by (rule attach_childrenFrom(2) [OF wfS]) simp
    with T have cf: "childrenFrom ?S n" by (simp add: processConversation_def)
    show "childrenOf n = [] \<or>
           stableSorted (stampOf parseDate) (map props (filter (repliesTo n) M)) (map props (childrenOf n))"
    proof (cases "childrenOf n = []")
      case True
      then show ?thesis by simp
    next
      case False
      with cf have "map props (childrenOf n) = map props (filter (repliesTo n) ?S)"
        by (simp add: childrenFrom_def)
      also have "filter (repliesTo n) ?S = sort_key (stamp parseDate) (filter (repliesTo n) M)"
        by (rule filter_sort)
      finally have "map props (childrenOf n) = sort_key (stampOf parseDate) (map props (filter (repliesTo n) M))"
        by (simp add: map_props_sort)
      then show ?thesis by (simp add: stableSorted_sort_key)
    qed
  qed
qed

lemma sorted_groups:
  assumes vd: "validDates parseDate tweets"
  shows "sortWith (compareGroups parseDate) (conversationMapOf tweets)
       = map (\<lambda>c. (c, membersOf c tweets))
           (sort_key (\<lambda>c. earliestStamp parseDate (membersOf c tweets)) (conversationKeys tweets))"
proof -
  let ?g = "\<lambda>c. (c, membersOf c tweets)"
  let ?key = "\<lambda>g. earliestStamp parseDate (snd g)"
  have ok: "snd g \<noteq> [] \<and> validDates parseDate (snd g)" if "g \<in> set (conversationMapOf tweets)" for g
  proof -
    from that obtain c where c: "c \<in> set (conversationKeys tweets)" "g = ?g c"
      by (auto simp: conversationMapOf_char)
    from c(1) obtain t where "t \<in> set tweets" "keyOf t = Some c" by (auto simp: conversationKeys_set)
    then have "t \<in> set (membersOf c tweets)" by (auto simp: keyOf_Some membersOf_def)
    then have "membersOf c tweets \<noteq> []" by auto
    moreover have "validDates parseDate (membersOf c tweets)"
      by (rule validDates_subset [OF vd membersOf_subset])
    ultimately show ?thesis using c(2) by simp
  qed
  have "sortWith (compareGroups parseDate) (conversationMapOf tweets)
      = sort_key ?key (conversationMapOf tweets)"
    by (rule sortWith_sort_key) (use ok in \<open>simp add: compareGroups_valid\<close>)
  also have "\<dots> = sort_key ?key (map ?g (conversationKeys tweets))"
    by (simp add: conversationMapOf_char)
  also have "\<dots> = map ?g (sort_key (\<lambda>c. ?key (?g c)) (conversationKeys tweets))"
    by (rule map_sort_key [symmetric])
  finally show ?thesis by simp
qed

lemma standalone_forest:
  assumes wf: "wellFormedIds tweets" and vd: "validDates parseDate tweets"
  defines "orph \<equiv> orphanTweetsOf tweets"
  defines "standalone \<equiv> sortWith (compareByTime parseDate)
                     (organizeTweetsIntoThreads (sortWith (compareByTime parseDate) orph))"
  shows "stableSorted (stampOf parseDate) (map props orph) (map props standalone)"
    and "\<forall>n\<in>set standalone. childrenOf n = []"
    and "sortWith (compareByTime parseDate) orph = [] \<longleftrightarrow> standalone = []"
proof -
  let ?S = "sort_key (stamp parseDate) orph"
  have sub: "set orph \<subseteq> set tweets" by (auto simp: orph_def orphanTweetsOf_def)
  have vOrph: "validDates parseDate orph" by (rule validDates_subset [OF vd sub])
  have S: "sortWith (compareByTime parseDate) orph = ?S" by (rule sortWith_time [OF vOrph])
  have wfS: "wellFormedIds ?S"
    unfolding orph_def orphanTweetsOf_def by (intro wellFormedIds_sort wellFormedIds_filter wf)
  have lack: "\<forall>t\<in>set ?S. \<not> truthy (conversationId (props t))"
    by (simp add: orph_def orphanTweetsOf_def)
  let ?roots = "organizeTweetsIntoThreads ?S"
  have org: "?roots = map (\<lambda>t. copyOf ?S (tweetId (props t))) ?S"
    by (rule organize_standalone [OF lack])
  have cp: "copyOf ?S (tweetId (props t)) = Tweet (props t) (repliedTo t) (Some [])" if "t \<in> set ?S" for t
    by (rule copyOf_member [OF wfS that])
  have rp: "map props ?roots = map props ?S" unfolding org using cp by simp
  then have rp': "map props ?roots = sort_key (stampOf parseDate) (map props orph)"
    by (simp add: map_props_sort)
  have vr: "validDates parseDate ?roots"
    by (rule validDates_props [OF vOrph]) (simp add: rp)
  have sorted_roots: "sorted (map (stamp parseDate) ?roots)"
    unfolding map_stamp rp' by (rule sorted_sort_key)
  have st: "standalone = ?roots"
    unfolding standalone_def S
    by (simp add: sortWith_time [OF vr] sort_key_id_if_sorted [OF sorted_roots])
  show "stableSorted (stampOf parseDate) (map props orph) (map props standalone)"
    unfolding st rp' by (rule stableSorted_sort_key)
  show "\<forall>n\<in>set standalone. childrenOf n = []"
    unfolding st org using cp by (auto simp: childrenOf_def)
  have "length standalone = length ?S" unfolding st org by simp
  then show "sortWith (compareByTime parseDate) orph = [] \<longleftrightarrow> standalone = []"
    unfolding S by (metis length_0_conv)
qed

text \<open>
  Claim C8 (as amended). Let the ids of the merged records be truthy and pairwise distinct
  and let every \<^verbatim>\<open>createdAt\<close> parse. Then what is composed is the sequence of the
  conversation blocks followed by the standalone block (absent when there is no standalone
  record), where
  \<^item> the keys of the conversation blocks are the stable ascending arrangement, by the
    earliest stamp among the members of the group, of the keys in the order of their first
    occurrence in the merged list;
  \<^item> the root trees of a block are the stable ascending arrangement, by their own stamp, of
    the roots of the group in merge order;
  \<^item> the children of every node are none, or the stable ascending arrangement, by stamp, of
    the records of the group that reply to the node, in merge order;
  \<^item> the standalone trees are the stable ascending arrangement, by stamp, of the records
    without conversation id in merge order, and have no children.
\<close>

theorem deterministic_order:
  assumes wf: "wellFormedIds tweets" and vd: "validDates parseDate tweets"
  shows "\<exists>groups standalone.
     composeForest parseDate tweets
       = map (\<lambda>(c, trees). ConversationBlock c trees) groups
         @ (if standalone = [] then [] else [StandaloneBlock standalone])
   \<and> stableSorted (\<lambda>c. earliestStamp parseDate (membersOf c tweets))
        (conversationKeys tweets) (map fst groups)
   \<and> (\<forall>(c, trees)\<in>set groups.
        stableSorted (stampOf parseDate)
          (map props (filter (isRootIn (membersOf c tweets)) (membersOf c tweets))) (map props trees)
        \<and> (\<forall>n\<in>set (concat (map nodesOf trees)). childrenOf n = [] \<or>
             stableSorted (stampOf parseDate)
               (map props (filter (repliesTo n) (membersOf c tweets))) (map props (childrenOf n))))
   \<and> stableSorted (stampOf parseDate) (map props (orphanTweetsOf tweets)) (map props standalone)
   \<and> (\<forall>n\<in>set standalone. childrenOf n = [])"
proof -
  let ?cmp = "compareByTime parseDate"
  let ?trees = "\<lambda>c. sortWith ?cmp (organizeTweetsIntoThreads (sortWith ?cmp (membersOf c tweets)))"
  let ?keys = "sort_key (\<lambda>c. earliestStamp parseDate (membersOf c tweets)) (conversationKeys tweets)"
  let ?groups = "map (\<lambda>c. (c, ?trees c)) ?keys"
  let ?standalone = "sortWith ?cmp (organizeTweetsIntoThreads (sortWith ?cmp (orphanTweetsOf tweets)))"
  note st = standalone_forest [OF wf vd]
  have 1: "composeForest parseDate tweets
       = map (\<lambda>(c, trees). ConversationBlock c trees) ?groups
         @ (if ?standalone = [] then [] else [StandaloneBlock ?standalone])"
    using st(3) by (simp add: composeForest_def Let_def sorted_groups [OF vd] comp_def)
  have 2: "stableSorted (\<lambda>c. earliestStamp parseDate (membersOf c tweets))
        (conversationKeys tweets) (map fst ?groups)"
    by (simp add: comp_def stableSorted_sort_key)
  have 3: "\<forall>(c, trees)\<in>set ?groups.
        stableSorted (stampOf parseDate)
          (map props (filter (isRootIn (membersOf c tweets)) (membersOf c tweets))) (map props trees)
        \<and> (\<forall>n\<in>set (concat (map nodesOf trees)). childrenOf n = [] \<or>
             stableSorted (stampOf parseDate)
               (map props (filter (repliesTo n) (membersOf c tweets))) (map props (childrenOf n)))"
  proof -
    have "stableSorted (stampOf parseDate)
          (map props (filter (isRootIn (membersOf c tweets)) (membersOf c tweets))) (map props (?trees c))
        \<and> (\<forall>n\<in>set (concat (map nodesOf (?trees c))). childrenOf n = [] \<or>
             stableSorted (stampOf parseDate)
               (map props (filter (repliesTo n) (membersOf c tweets))) (map props (childrenOf n)))"
      if "c \<in> set (conversationKeys tweets)" for c
      using group_forest [OF wf vd that] by blast
    then show ?thesis by auto
  qed
  from 1 2 3 st(1,2) show ?thesis by blast
qed

theorem deterministic_order_witness:
  "(\<exists>groups standalone.
     composeForest isoDates mixedBatch
       = map (\<lambda>(c, trees). ConversationBlock c trees) groups
         @ (if standalone = [] then [] else [StandaloneBlock standalone])
   \<and> stableSorted (\<lambda>c. earliestStamp isoDates (membersOf c mixedBatch))
        (conversationKeys mixedBatch) (map fst groups)
   \<and> (\<forall>(c, trees)\<in>set groups.
        stableSorted (stampOf isoDates)
          (map props (filter (isRootIn (membersOf c mixedBatch)) (membersOf c mixedBatch))) (map props trees)
        \<and> (\<forall>n\<in>set (concat (map nodesOf trees)). childrenOf n = [] \<or>
             stableSorted (stampOf isoDates)
               (map props (filter (repliesTo n) (membersOf c mixedBatch))) (map props (childrenOf n))))
   \<and> stableSorted (stampOf isoDates) (map props (orphanTweetsOf mixedBatch)) (map props standalone)
   \<and> (\<forall>n\<in>set standalone. childrenOf n = []))
   \<and> map blockShape (composeForest isoDates mixedBatch)
       = [(Some ''c'', [Node (Some ''1'') [Node (Some ''2'') [Node (Some ''3'') []], Node (Some ''4'') []]]),
          (Some ''d'', [Node (Some ''7'') []]),
          (None, [Node (Some ''8'') [], Node (Some ''9'') []])]"
proof -
  have wf: "wellFormedIds mixedBatch" by code_simp
  have vd: "validDates isoDates mixedBatch" by code_simp
  have sh: "map blockShape (composeForest isoDates mixedBatch)
       = [(Some ''c'', [Node (Some ''1'') [Node (Some ''2'') [Node (Some ''3'') []], Node (Some ''4'') []]]),
          (Some ''d'', [Node (Some ''7'') []]),
          (None, [Node (Some ''8'') [], Node (Some ''9'') []])]"
    by code_simp
  from deterministic_order [OF wf vd] sh show ?thesis by blast
qed

text \<open>
  Claim C8 as stated fails. The included batch and the replied-to batch both hold a record
  with id x (dated day 2 and day 4), both replies to the primary post r, as is the primary
  post y (day 3). The merge keeps both, the builder copies the last record with id x for
  each of them, and the children of r are dated day 4, day 3, day 4.
\<close>

theorem deterministic_order_counterexample:
  "childStamps isoDates (pipeline isoDates duplicateResponse)
     = [[Some 1704326400000, Some 1704240000000, Some 1704326400000], [], [], []]"
  by code_simp


subsection \<open>Input objects and forest nodes\<close>

text \<open>
  On the examples the builder on the store leaves the forest that the builder on values
  returns.
\<close>

lemma store_builder_agrees:
  "map (readBack 4 (snd (organizeTweetsIntoThreadsH threadStore [0, 1, 2, 3])))
       (fst (organizeTweetsIntoThreadsH threadStore [0, 1, 2, 3]))
     = organizeTweetsIntoThreads threadOfFour"
  "map (readBack 4 (snd (organizeTweetsIntoThreadsH (map objectOf replyCycle) [0, 1])))
       (fst (organizeTweetsIntoThreadsH (map objectOf replyCycle) [0, 1]))
     = organizeTweetsIntoThreads replyCycle"
  by code_simp+

lemma grows_refl: "freshNodes n h \<Longrightarrow> grows n h h"
  by (simp add: grows_def)

lemma grows_trans: "grows n h h1 \<Longrightarrow> grows n h1 h2 \<Longrightarrow> grows n h h2"
  by (simp add: grows_def)

lemma newCopy_children: "o_children (newCopy h m k) = Some []"
  by (simp add: newCopy_def emptyObj_def split: option.splits)

lemma freshNodes_D:
  "freshNodes n h \<Longrightarrow> n \<le> a \<Longrightarrow> a < length h \<Longrightarrow> o_children (h ! a) = Some cs \<Longrightarrow> c \<in> set cs
     \<Longrightarrow> n \<le> c \<and> c < length h"
  unfolding freshNodes_def by blast

lemma freshNodes_I:
  "(\<And>a cs c. n \<le> a \<Longrightarrow> a < length h \<Longrightarrow> o_children (h ! a) = Some cs \<Longrightarrow> c \<in> set cs
      \<Longrightarrow> n \<le> c \<and> c < length h) \<Longrightarrow> freshNodes n h"
  unfolding freshNodes_def by blast

lemma freshNodes_alloc:
  assumes "freshNodes n h" "o_children ob = Some []"
  shows "freshNodes n (h @ [ob])"
proof (rule freshNodes_I)
  fix a cs c
  assume a: "n \<le> a" "a < length (h @ [ob])" "o_children ((h @ [ob]) ! a) = Some cs" "c \<in> set cs"
  show "n \<le> c \<and> c < length (h @ [ob])"
  proof (cases "a < length h")
    case True
    with a(3) have "o_children (h ! a) = Some cs" by (simp add: nth_append)
    from freshNodes_D [OF assms(1) a(1) True this a(4)] show ?thesis by simp
  next
    case False
    with a(2) have "a = length h" by simp
    with a(3) assms(2) have "cs = []" by simp
    with a(4) show ?thesis by simp
  qed
qed

lemma grows_alloc:
  assumes "freshNodes n h" "o_children ob = Some []" "n \<le> length h"
  shows "grows n h (h @ [ob])"
  using freshNodes_alloc [OF assms(1,2)] assms(3) by (simp add: grows_def)

lemma freshNodes_setChildren:
  assumes "freshNodes n h" "\<forall>c\<in>set cs. n \<le> c \<and> c < length h"
  shows "freshNodes n (setChildren h a cs)"
proof (cases "a < length h")
  case False
  then show ?thesis using assms(1) by (simp add: setChildren_def)
next
  case True
  let ?h = "h[a := (h ! a)\<lparr> o_children := Some cs \<rparr>]"
  have "freshNodes n ?h"
  proof (rule freshNodes_I)
    fix b ds d
    assume b: "n \<le> b" "b < length ?h" "o_children (?h ! b) = Some ds" "d \<in> set ds"
    show "n \<le> d \<and> d < length ?h"
    proof (cases "b = a")
      case True
      with b(2,3) have "ds = cs" by simp
      with b(4) assms(2) show ?thesis by simp
    next
      case False
      with b(2,3) have "o_children (h ! b) = Some ds" "b < length h" by simp_all
      from freshNodes_D [OF assms(1) b(1) this(2) this(1) b(4)] show ?thesis by simp
    qed
  qed
  then show ?thesis using True by (simp add: setChildren_def)
qed

lemma grows_setChildren:
  assumes "freshNodes n h" "n \<le> a" "\<forall>c\<in>set cs. n \<le> c \<and> c < length h"
  shows "grows n h (setChildren h a cs)"
proof -
  have "take n (setChildren h a cs) = take n h"
    using assms(2) by (simp add: setChildren_def)
  moreover have "length h \<le> length (setChildren h a cs)"
    by (simp add: setChildren_def)
  ultimately show ?thesis
    using freshNodes_setChildren [OF assms(1,3)] by (simp add: grows_def)
qed

lemma attach_frame:
  "freshNodes n (fst s) \<Longrightarrow> n \<le> length (fst s) \<Longrightarrow> n \<le> a \<Longrightarrow>
     grows n (fst s) (fst (attachChildrenH m conv s a))"
  "freshNodes n (fst s) \<Longrightarrow> n \<le> length (fst s) \<Longrightarrow>
     grows n (fst s) (fst (snd (attachEachH m conv s ks))) \<and>
     (\<forall>c\<in>set (fst (attachEachH m conv s ks)).
        n \<le> c \<and> c < length (fst (snd (attachEachH m conv s ks))))"
proof (induction m conv s a and m conv s ks rule: attachChildrenH_attachEachH.induct)
  case (1 m conv h P a)
  show ?case
  proof (cases "idAt h a \<in> P")
    case True
    then show ?thesis using "1.prems" by (simp add: grows_refl)
  next
    case False
    show ?thesis
    proof (cases "filter (repliesToH h (idAt h a)) conv")
      case Nil
      then show ?thesis using False "1.prems" by (simp add: grows_refl)
    next
      case (Cons child rest)
      obtain cs h1 P1 where e: "attachEachH m conv (h, insert (idAt h a) P) (child # rest) = (cs, h1, P1)"
        by (metis prod_cases3)
      from "1.IH" [OF False Cons] "1.prems" e
      have g: "grows n h h1" and c: "\<forall>c\<in>set cs. n \<le> c \<and> c < length h1" by auto
      from g have "freshNodes n h1" by (simp add: grows_def)
      from grows_setChildren [OF this "1.prems"(3) c]
      have "grows n h1 (setChildren h1 a cs)" .
      with g have "grows n h (setChildren h1 a cs)" by (rule grows_trans)
      then show ?thesis using False Cons e by simp
    qed
  qed
next
  case (2 m conv h P)
  then show ?case by (simp add: grows_refl)
next
  case (3 m conv h P child rest)
  let ?h0 = "h @ [newCopy h m (idAt h child)]"
  obtain h1 P1 where a: "attachChildrenH m conv (?h0, P) (length h) = (h1, P1)"
    by fastforce
  obtain cs h2 P2 where b: "attachEachH m conv (h1, P1) rest = (cs, h2, P2)"
    by (metis prod_cases3)
  from "3.prems" have g0: "grows n h ?h0"
    by (intro grows_alloc) (simp_all add: newCopy_children)
  then have f0: "freshNodes n ?h0" by (simp add: grows_def)
  from "3.IH"(1) f0 "3.prems" a have g1: "grows n ?h0 h1" by simp
  then have f1: "freshNodes n h1" and l1: "n \<le> length h1" "length h < length h1"
    using "3.prems" by (simp_all add: grows_def)
  from "3.IH"(2) [OF a [symmetric]] f1 l1 b
  have g2: "grows n h1 h2" and c: "\<forall>c\<in>set cs. n \<le> c \<and> c < length h2" by auto
  from g2 l1 have "length h < length h2" by (simp add: grows_def)
  moreover have "grows n h h2" by (rule grows_trans [OF grows_trans [OF g0 g1] g2])
  ultimately show ?case using a b c "3.prems" by simp
qed

lemma processConversation_frame:
  assumes "freshNodes n h" "n \<le> length h"
  shows "grows n h (snd (processConversationH m h conv)) \<and>
         (\<forall>c\<in>set (fst (processConversationH m h conv)).
            n \<le> c \<and> c < length (snd (processConversationH m h conv)))"
proof -
  obtain rs h1 P1 where e: "attachEachH m conv (h, {}) (filter (isRootInH h conv) conv) = (rs, h1, P1)"
    by (metis prod_cases3)
  from attach_frame(2) [of n "(h, {})" m conv "filter (isRootInH h conv) conv"] assms e
  show ?thesis by (simp add: processConversationH_def)
qed

lemma conversations_frame:
  "freshNodes n h \<Longrightarrow> n \<le> length h \<Longrightarrow>
     grows n h (snd (conversationsH m h groups)) \<and>
     (\<forall>c\<in>set (fst (conversationsH m h groups)).
        n \<le> c \<and> c < length (snd (conversationsH m h groups)))"
proof (induction groups arbitrary: h)
  case Nil
  then show ?case by (simp add: grows_refl)
next
  case (Cons g groups)
  obtain k conv where g: "g = (k, conv)" by (cases g)
  obtain rs h1 where p: "processConversationH m h conv = (rs, h1)" by fastforce
  obtain os h2 where q: "conversationsH m h1 groups = (os, h2)" by fastforce
  from processConversation_frame [where m = m and conv = conv, OF Cons.prems] p
  have g1: "grows n h h1" and c1: "\<forall>c\<in>set rs. n \<le> c \<and> c < length h1" by auto
  then have "freshNodes n h1" "n \<le> length h1" using Cons.prems by (simp_all add: grows_def)
  from Cons.IH [OF this] q
  have g2: "grows n h1 h2" and c2: "\<forall>c\<in>set os. n \<le> c \<and> c < length h2" by auto
  from g2 have "length h1 \<le> length h2" by (simp add: grows_def)
  with c1 have "\<forall>c\<in>set rs. n \<le> c \<and> c < length h2" by auto
  with c2 grows_trans [OF g1 g2] show ?case using g p q by auto
qed

lemma placeOrphan_cases:
  "placeOrphanH m tweets h a = ([], h) \<or>
   placeOrphanH m tweets h a = ([length h], h @ [newCopy h m (idAt h a)])"
  by (simp add: placeOrphanH_def split: option.splits)

lemma placeOrphan_frame:
  assumes "freshNodes n h" "n \<le> length h"
  shows "grows n h (snd (placeOrphanH m tweets h a)) \<and>
         (\<forall>c\<in>set (fst (placeOrphanH m tweets h a)).
            n \<le> c \<and> c < length (snd (placeOrphanH m tweets h a)))"
proof -
  have g: "grows n h (h @ [newCopy h m (idAt h a)])"
    using assms by (intro grows_alloc) (simp_all add: newCopy_children)
  from placeOrphan_cases [of m tweets h a] show ?thesis
  proof
    assume "placeOrphanH m tweets h a = ([], h)"
    then show ?thesis using assms(1) by (simp add: grows_refl)
  next
    assume "placeOrphanH m tweets h a = ([length h], h @ [newCopy h m (idAt h a)])"
    then show ?thesis using g assms(2) by simp
  qed
qed

lemma orphans_frame:
  "freshNodes n h \<Longrightarrow> n \<le> length h \<Longrightarrow>
     grows n h (snd (orphansH m tweets h as)) \<and>
     (\<forall>c\<in>set (fst (orphansH m tweets h as)).
        n \<le> c \<and> c < length (snd (orphansH m tweets h as)))"
proof (induction as arbitrary: h)
  case Nil
  then show ?case by (simp add: grows_refl)
next
  case (Cons a as)
  obtain rs h1 where p: "placeOrphanH m tweets h a = (rs, h1)" by fastforce
  obtain os h2 where q: "orphansH m tweets h1 as = (os, h2)" by fastforce
  from placeOrphan_frame [where m = m and tweets = tweets and a = a, OF Cons.prems] p
  have g1: "grows n h h1" and c1: "\<forall>c\<in>set rs. n \<le> c \<and> c < length h1" by auto
  then have "freshNodes n h1" "n \<le> length h1" using Cons.prems by (simp_all add: grows_def)
  from Cons.IH [OF this] q
  have g2: "grows n h1 h2" and c2: "\<forall>c\<in>set os. n \<le> c \<and> c < length h2" by auto
  from g2 have "length h1 \<le> length h2" by (simp add: grows_def)
  with c1 have "\<forall>c\<in>set rs. n \<le> c \<and> c < length h2" by auto
  with c2 grows_trans [OF g1 g2] show ?case using p q by auto
qed

lemma mapStep_cases:
  "fst (mapStepH (h, m) a) = h \<or>
   fst (mapStepH (h, m) a) = h @ [(load h a)\<lparr> o_children := Some [] \<rparr>]"
  by (simp add: mapStepH_def split: option.splits)

lemma mapStep_frame:
  assumes "freshNodes n (fst s)" "n \<le> length (fst s)"
  shows "grows n (fst s) (fst (mapStepH s a))"
proof (cases s)
  case (Pair h m)
  have g: "grows n h (h @ [(load h a)\<lparr> o_children := Some [] \<rparr>])"
    using assms Pair by (intro grows_alloc) simp_all
  from mapStep_cases [of h m a] show ?thesis
  proof
    assume "fst (mapStepH (h, m) a) = h"
    then show ?thesis using assms(1) Pair by (simp add: grows_refl)
  next
    assume "fst (mapStepH (h, m) a) = h @ [(load h a)\<lparr> o_children := Some [] \<rparr>]"
    then show ?thesis using g Pair by simp
  qed
qed

lemma buildMap_frame_aux:
  "freshNodes n (fst s) \<Longrightarrow> n \<le> length (fst s) \<Longrightarrow>
     grows n (fst s) (fst (foldl mapStepH s tweets))"
proof (induction tweets arbitrary: s)
  case Nil
  then show ?case by (simp add: grows_refl)
next
  case (Cons a tweets)
  from mapStep_frame [OF Cons.prems, of a] have g: "grows n (fst s) (fst (mapStepH s a))" .
  then have "freshNodes n (fst (mapStepH s a))" "n \<le> length (fst (mapStepH s a))"
    using Cons.prems by (simp_all add: grows_def)
  from Cons.IH [OF this] have "grows n (fst (mapStepH s a)) (fst (foldl mapStepH (mapStepH s a) tweets))" .
  with g have "grows n (fst s) (fst (foldl mapStepH (mapStepH s a) tweets))" by (rule grows_trans)
  then show ?case by simp
qed

lemma freshNodes_start: "freshNodes (length h) h"
  by (simp add: freshNodes_def)

lemma organize_frame:
  "grows (length h) h (snd (organizeTweetsIntoThreadsH h tweets)) \<and>
   (\<forall>c\<in>set (fst (organizeTweetsIntoThreadsH h tweets)).
      length h \<le> c \<and> c < length (snd (organizeTweetsIntoThreadsH h tweets)))"
proof -
  let ?n = "length h"
  obtain h1 m where b: "buildMapH h tweets = (h1, m)" by fastforce
  obtain rs h2 where c: "conversationsH m h1 (conversationMapH h1 tweets) = (rs, h2)" by fastforce
  obtain os h3 where d: "orphansH m tweets h2 (orphanTweetsH h1 tweets) = (os, h3)" by fastforce
  from buildMap_frame_aux [of ?n "(h, Map.empty)" tweets] b
  have g1: "grows ?n h h1" by (simp add: buildMapH_def freshNodes_start)
  then have "freshNodes ?n h1" "?n \<le> length h1" by (simp_all add: grows_def)
  from conversations_frame [where m = m and groups = "conversationMapH h1 tweets", OF this] c
  have g2: "grows ?n h1 h2" and c2: "\<forall>c\<in>set rs. ?n \<le> c \<and> c < length h2" by auto
  from g1 g2 have "freshNodes ?n h2" "?n \<le> length h2" by (simp_all add: grows_def)
  from orphans_frame [where m = m and tweets = tweets and as = "orphanTweetsH h1 tweets", OF this] d
  have g3: "grows ?n h2 h3" and c3: "\<forall>c\<in>set os. ?n \<le> c \<and> c < length h3" by auto
  from g3 have "length h2 \<le> length h3" by (simp add: grows_def)
  with c2 have "\<forall>c\<in>set rs. ?n \<le> c \<and> c < length h3" by auto
  moreover have "grows ?n h h3" by (rule grows_trans [OF grows_trans [OF g1 g2] g3])
  moreover have "organizeTweetsIntoThreadsH h tweets = (rs @ os, h3)"
    using b c d by (simp add: organizeTweetsIntoThreadsH_def)
  ultimately show ?thesis using c3 by auto
qed

lemma forest_fresh:
  assumes "freshNodes n h" "\<forall>c\<in>set roots. n \<le> c \<and> c < length h" "r \<in> forestAddrs h roots"
  shows "n \<le> r \<and> r < length h"
  using assms(3)
proof induction
  case (root a)
  then show ?case using assms(2) by simp
next
  case (child a cs c)
  then have "o_children (h ! a) = Some cs" by (simp add: load_def)
  from freshNodes_D [OF assms(1) _ _ this child.hyps(3)] child.IH show ?case by simp
qed

text \<open>
  Claim C10. \<^verbatim>\<open>organizeTweetsIntoThreads\<close> writes to no object that existed before the
  call: when \<^verbatim>\<open>tweets\<close> holds references to objects of the store, every object of the store
  is the same after the call as before, so every input tweet has all its properties,
  \<^verbatim>\<open>children\<close> included, unchanged; and every node of the returned forest, a root or an
  object reached from a root through \<^verbatim>\<open>children\<close>, is an object allocated during the call
  and is none of the input objects.
\<close>

theorem input_objects_untouched:
  assumes "\<forall>a\<in>set tweets. a < length h"
  shows "take (length h) (snd (organizeTweetsIntoThreadsH h tweets)) = h \<and>
         (\<forall>a\<in>set tweets. load (snd (organizeTweetsIntoThreadsH h tweets)) a = load h a) \<and>
         (\<forall>r\<in>forestAddrs (snd (organizeTweetsIntoThreadsH h tweets))
                 (fst (organizeTweetsIntoThreadsH h tweets)).
            length h \<le> r \<and> r < length (snd (organizeTweetsIntoThreadsH h tweets)) \<and> r \<notin> set tweets)"
proof -
  let ?h = "snd (organizeTweetsIntoThreadsH h tweets)"
  let ?roots = "fst (organizeTweetsIntoThreadsH h tweets)"
  from organize_frame [of h tweets]
  have g: "grows (length h) h ?h"
    and r: "\<forall>c\<in>set ?roots. length h \<le> c \<and> c < length ?h" by simp_all
  from g have t: "take (length h) ?h = h" and f: "freshNodes (length h) ?h" and l: "length h \<le> length ?h"
    by (simp_all add: grows_def)
  have "load ?h a = load h a" if "a \<in> set tweets" for a
  proof -
    from that assms have a: "a < length h" by simp
    then have "?h ! a = take (length h) ?h ! a" by simp
    with t a l show ?thesis by (simp add: load_def)
  qed
  moreover have "length h \<le> x \<and> x < length ?h \<and> x \<notin> set tweets" if "x \<in> forestAddrs ?h ?roots" for x
    using forest_fresh [OF f r that] assms by auto
  ultimately show ?thesis using t by blast
qed

text \<open>
  The conversation of four records at the addresses 0 to 3: the root of the forest is the
  object at address 8, its children are at 9 and 11 and its grandchild at 10; the objects at
  0 to 3 are as they were and none of them is a node of the forest.
\<close>

theorem input_objects_untouched_witness:
  "fst (organizeTweetsIntoThreadsH threadStore [0, 1, 2, 3]) = [8] \<and>
   map o_children (drop 8 (snd (organizeTweetsIntoThreadsH threadStore [0, 1, 2, 3])))
     = [Some [9, 11], Some [10], Some [], Some []] \<and>
   take 4 (snd (organizeTweetsIntoThreadsH threadStore [0, 1, 2, 3])) = threadStore \<and>
   \<not> (\<exists>r. r \<in> forestAddrs (snd (organizeTweetsIntoThreadsH threadStore [0, 1, 2, 3]))
                  (fst (organizeTweetsIntoThreadsH threadStore [0, 1, 2, 3])) \<and> r < 4)"
proof -
  have v: "\<forall>a\<in>set [0, 1, 2, 3::nat]. a < length threadStore"
    by (simp add: threadStore_def threadOfFour_def)
  have n: "length threadStore = 4" by (simp add: threadStore_def threadOfFour_def)
  have a: "fst (organizeTweetsIntoThreadsH threadStore [0, 1, 2, 3]) = [8]" by code_simp
  have b: "map o_children (drop 8 (snd (organizeTweetsIntoThreadsH threadStore [0, 1, 2, 3])))
     = [Some [9, 11], Some [10], Some [], Some []]" by code_simp
  from input_objects_untouched [OF v] n a b show ?thesis by auto
qed


end
